theory Spec2Isabelle
  imports Complex_Main "HOL-Library.AList" "HOL-Library.Sublist" "HOL-Library.Multiset"
begin

section \<open>The multi-agent workflow orchestrator\<close>

text \<open>
  A shallow embedding of \<^verbatim>\<open>src/multi_agent/orchestrator.py\<close> and of the parts of
  \<^verbatim>\<open>src/multi_agent/agents.py\<close> it reads. Python objects that the orchestrator mutates
  in place (the workflow and the steps of its list) are passed as an explicit state; a step
  is addressed by its index in \<open>workflow.steps\<close>. An exception that leaves a method is the
  left summand of its result and carries the state at the moment it is raised.
  The text-generation service, \<open>json.loads\<close>, \<open>str.upper\<close> and the progress callback that
  the caller passes to \<open>run_workflow\<close> are outside the orchestrator: they are the four fields
  of an environment over which every theorem quantifies.
  Timestamps (\<open>datetime.now()\<close>) and the unused field \<open>input_data\<close> are left out: no decision
  of the orchestrator reads them.
\<close>

subsection \<open>Agent roles (agents.py)\<close>

datatype AgentRole = ORCHESTRATOR | TRIAGE | RESEARCH | COMPLIANCE | REVIEW | OUTPUT

text \<open>\<open>role.value\<close>\<close>

fun role_value :: "AgentRole \<Rightarrow> string" where
  "role_value ORCHESTRATOR = ''orchestrator''"
| "role_value TRIAGE = ''triage''"
| "role_value RESEARCH = ''research''"
| "role_value COMPLIANCE = ''compliance''"
| "role_value REVIEW = ''review''"
| "role_value OUTPUT = ''output''"

text \<open>\<open>AgentRole[name]\<close>: lookup of a member by its name; \<open>None\<close> stands for \<open>KeyError\<close>.\<close>

definition AgentRole_by_name :: "string \<Rightarrow> AgentRole option" where
  "AgentRole_by_name name =
     (if name = ''ORCHESTRATOR'' then Some ORCHESTRATOR
      else if name = ''TRIAGE'' then Some TRIAGE
      else if name = ''RESEARCH'' then Some RESEARCH
      else if name = ''COMPLIANCE'' then Some COMPLIANCE
      else if name = ''REVIEW'' then Some REVIEW
      else if name = ''OUTPUT'' then Some OUTPUT
      else None)"

text \<open>\<open>get_agent_config(role).can_query_knowledge\<close>\<close>

fun can_query_knowledge :: "AgentRole \<Rightarrow> bool" where
  "can_query_knowledge ORCHESTRATOR = False"
| "can_query_knowledge TRIAGE = True"
| "can_query_knowledge RESEARCH = True"
| "can_query_knowledge COMPLIANCE = True"
| "can_query_knowledge REVIEW = False"
| "can_query_knowledge OUTPUT = False"

subsection \<open>Python values\<close>

text \<open>
  The values \<open>json.loads\<close> returns, which are also the values of the result dictionaries.
  A dictionary is an association list read with \<open>map_of\<close> and written with
  \<open>AList.update\<close>, as a Python \<open>dict\<close> keeps its keys in insertion order. A float is the
  rational it denotes (the non-standard literals NaN and Infinity behave like any other
  non-zero float in all that follows).
\<close>

datatype json =
    JNull
  | JBool bool
  | JInt int
  | JFloat rat
  | JStr string
  | JArr "json list"
  | JObj "(string \<times> json) list"

type_synonym pydict = "(string \<times> json) list"

text \<open>
  The exceptions that leave the orchestrator: the three its own operations on Python values
  raise, and \<open>OtherError\<close> with its message for what a progress callback may raise.
\<close>

datatype py_error = AttributeError | TypeError | KeyError | OtherError string

text \<open>Truth value testing, \<open>bool(v)\<close>.\<close>

fun truthy :: "json \<Rightarrow> bool" where
  "truthy JNull = False"
| "truthy (JBool b) = b"
| "truthy (JInt i) = (i \<noteq> 0)"
| "truthy (JFloat r) = (r \<noteq> 0)"
| "truthy (JStr s) = (s \<noteq> [])"
| "truthy (JArr xs) = (xs \<noteq> [])"
| "truthy (JObj d) = (d \<noteq> [])"

text \<open>\<open>d.get(key, default)\<close> on a dictionary.\<close>

definition dict_get :: "pydict \<Rightarrow> string \<Rightarrow> json \<Rightarrow> json" where
  "dict_get d key dflt = (case map_of d key of Some v \<Rightarrow> v | None \<Rightarrow> dflt)"

text \<open>
  \<open>v.get(key, default)\<close> on any value: only a dictionary has the method, every other
  value raises \<open>AttributeError\<close>.
\<close>

fun py_get :: "json \<Rightarrow> string \<Rightarrow> json \<Rightarrow> py_error + json" where
  "py_get (JObj d) key dflt = Inr (dict_get d key dflt)"
| "py_get _ key dflt = Inl AttributeError"

text \<open>
  \<open>for x in v\<close>: a list yields its elements, a dictionary its keys, a string its
  characters; the other values are not iterable (\<open>TypeError\<close>).
\<close>

fun py_iter :: "json \<Rightarrow> py_error + json list" where
  "py_iter (JArr xs) = Inr xs"
| "py_iter (JObj d) = Inr (map (\<lambda>kv. JStr (fst kv)) d)"
| "py_iter (JStr s) = Inr (map (\<lambda>c. JStr [c]) s)"
| "py_iter _ = Inl TypeError"

text \<open>
  \<open>v[:n]\<close>: a string and a list have slices. A dictionary takes the slice for a key, which
  is unhashable (\<open>TypeError\<close>; from Python 3.12 on the lookup raises \<open>KeyError\<close> instead); the
  other values are not subscriptable (\<open>TypeError\<close>).
\<close>

fun py_slice :: "json \<Rightarrow> nat \<Rightarrow> py_error + json" where
  "py_slice (JStr s) n = Inr (JStr (take n s))"
| "py_slice (JArr xs) n = Inr (JArr (take n xs))"
| "py_slice _ n = Inl TypeError"

subsection \<open>Workflow records (orchestrator.py)\<close>

datatype WorkflowState =
  PENDING | IN_PROGRESS | AWAITING_REVIEW | NEEDS_REVISION | COMPLETED | FAILED

fun state_value :: "WorkflowState \<Rightarrow> string" where
  "state_value PENDING = ''pending''"
| "state_value IN_PROGRESS = ''in_progress''"
| "state_value AWAITING_REVIEW = ''awaiting_review''"
| "state_value NEEDS_REVISION = ''needs_revision''"
| "state_value COMPLETED = ''completed''"
| "state_value FAILED = ''failed''"

text \<open>
  \<open>instruction\<close> and \<open>error\<close> are annotated \<open>str\<close> in the source, but they are assigned
  whatever \<open>.get\<close> finds in a parsed reply, so they are Python values here.
\<close>

record WorkflowStep =
  step_id :: int
  agent :: AgentRole
  instruction :: json
  status :: string
  output_data :: pydict
  error :: "json option"

record Workflow =
  workflow_id :: string
  user_request :: string
  state :: WorkflowState
  steps :: "WorkflowStep list"
  conversation_history :: "pydict list"
  final_output :: "json option"
  iteration_count :: int
  max_iterations :: int

text \<open>\<open>WorkflowStep(step_id=.., agent=.., instruction=..)\<close> with the dataclass defaults.\<close>

definition new_step :: "int \<Rightarrow> AgentRole \<Rightarrow> json \<Rightarrow> WorkflowStep" where
  "new_step sid role instr =
     \<lparr>step_id = sid, agent = role, instruction = instr, status = ''pending'',
      output_data = [], error = None\<rparr>"

text \<open>\<open>Workflow(workflow_id=.., user_request=..)\<close> as \<open>create_workflow\<close> builds it.\<close>

definition create_workflow :: "string \<Rightarrow> string \<Rightarrow> Workflow" where
  "create_workflow wid request =
     \<lparr>workflow_id = wid, user_request = request, state = PENDING, steps = [],
      conversation_history = [], final_output = None, iteration_count = 0,
      max_iterations = 5\<rparr>"

subsection \<open>The environment and the run state\<close>

text \<open>What one call of \<open>AgentExecutor.execute\<close> sends out.\<close>

record request =
  req_agent :: AgentRole
  req_instruction :: json
  req_context :: "pydict option"
  req_knowledge_query :: "string option"

text \<open>
  The outcome of the \<open>try\<close> block up to \<open>content = response.choices[0].message.content\<close>:
  an exception with its message, the text of the reply, or a reply without text (\<open>content\<close>
  is \<open>None\<close>, as for a reply that is filtered or only calls a tool).
\<close>

datatype reply = Raises string | Content string | NoContent

text \<open>
  The outcome of \<open>json.loads\<close> on a string: the value, \<open>JSONDecodeError\<close>, or another
  exception with its message (\<open>ValueError\<close> for an integer literal beyond the digit limit of
  \<open>int\<close>, \<open>RecursionError\<close> for a text nested too deeply).
\<close>

datatype loads_result = Parsed json | JSONDecodeError | OtherException string

text \<open>
  A progress callback, as far as the orchestrator can tell: whether its \<open>n\<close>-th call (counted
  from 0, with the given event type) returns (\<open>None\<close>) or raises.
\<close>

type_synonym callback = "nat \<Rightarrow> string \<Rightarrow> py_error option"

text \<open>
  \<open>llm env k req\<close> is the outcome of the \<open>k\<close>-th call of the executor (counted from 0) on
  request \<open>req\<close>; it is arbitrary, so it covers a service whose answers depend on the
  knowledge-base snippets, on earlier calls or on nothing at all.
  \<open>json_loads env s\<close> is \<open>json.loads(s)\<close> on the reply text; \<open>str_upper env\<close> is
  \<open>str.upper\<close>; \<open>stream_callback env\<close> is the argument \<open>stream_callback\<close> of \<open>run_workflow\<close>,
  \<open>None\<close> when the caller passes none (as the route \<open>/workflow\<close> does; \<open>/workflow/stream\<close> and
  \<open>runner.py\<close> pass one).
\<close>

record env =
  llm :: "nat \<Rightarrow> request \<Rightarrow> reply"
  json_loads :: "string \<Rightarrow> loads_result"
  str_upper :: "string \<Rightarrow> string"
  stream_callback :: "callback option"

text \<open>
  The workflow under execution with three history variables: the requests sent so far,
  every value that has been assigned to \<open>iteration_count\<close>, and the event types with which the
  callback has been called.
\<close>

record run_state =
  workflow :: Workflow
  calls :: "request list"
  count_log :: "int list"
  events :: "string list"

subsection \<open>AgentExecutor.execute\<close>

text \<open>
  The request assembled by \<open>execute\<close>. The knowledge base is asked (and its snippets are
  added to the prompt) only when the agent's configuration allows it.
\<close>

definition mk_request ::
  "AgentRole \<Rightarrow> json \<Rightarrow> pydict option \<Rightarrow> string option \<Rightarrow> request" where
  "mk_request agent_role instr context knowledge_query =
     \<lparr>req_agent = agent_role, req_instruction = instr, req_context = context,
      req_knowledge_query =
        (if can_query_knowledge agent_role then knowledge_query else None)\<rparr>"

text \<open>
  The \<open>try\<close> block and its handlers. The inner handler catches \<open>JSONDecodeError\<close> only;
  whatever else \<open>json.loads\<close> raises reaches the outer \<open>except Exception\<close>, as does the
  \<open>TypeError\<close> it raises for a reply without text.
\<close>

definition execute ::
  "env \<Rightarrow> nat \<Rightarrow> AgentRole \<Rightarrow> json \<Rightarrow> pydict option \<Rightarrow> string option \<Rightarrow> pydict" where
  "execute env k agent_role instr context knowledge_query =
     (case llm env k (mk_request agent_role instr context knowledge_query) of
        Content content \<Rightarrow>
          (case json_loads env content of
             Parsed parsed \<Rightarrow>
               [(''agent'', JStr (role_value agent_role)), (''raw_response'', JStr content),
                (''parsed'', parsed), (''success'', JBool True)]
           | JSONDecodeError \<Rightarrow>
               [(''agent'', JStr (role_value agent_role)), (''raw_response'', JStr content),
                (''parsed'', JNull), (''success'', JBool True)]
           | OtherException e \<Rightarrow>
               [(''agent'', JStr (role_value agent_role)), (''error'', JStr e),
                (''success'', JBool False)])
      | NoContent \<Rightarrow>
          [(''agent'', JStr (role_value agent_role)),
           (''error'', JStr ''the JSON object must be str, bytes or bytearray, not NoneType''),
           (''success'', JBool False)]
      | Raises e \<Rightarrow>
          [(''agent'', JStr (role_value agent_role)), (''error'', JStr e),
           (''success'', JBool False)])"

text \<open>Whether the \<open>k\<close>-th call, on request \<open>req\<close>, ends in the \<open>try\<close> block and not in its outer handler.\<close>

definition succeeds :: "env \<Rightarrow> nat \<Rightarrow> request \<Rightarrow> bool" where
  "succeeds env k req =
     (case llm env k req of
        Content content \<Rightarrow>
          (case json_loads env content of OtherException e \<Rightarrow> False | _ \<Rightarrow> True)
      | _ \<Rightarrow> False)"

subsection \<open>WorkflowOrchestrator: planning\<close>

text \<open>\<open>v.upper()\<close>: only a string has the method.\<close>

fun py_upper :: "env \<Rightarrow> json \<Rightarrow> py_error + string" where
  "py_upper env (JStr s) = Inr (str_upper env s)"
| "py_upper env _ = Inl AttributeError"

text \<open>\<open>try: AgentRole[name]\<close> \<open>except KeyError: AgentRole.RESEARCH\<close>\<close>

definition role_or_research :: "string \<Rightarrow> AgentRole" where
  "role_or_research name =
     (case AgentRole_by_name name of Some role \<Rightarrow> role | None \<Rightarrow> RESEARCH)"

text \<open>
  The body shared by the loop of \<open>_plan_workflow\<close> (\<open>field\<close> is \<open>instruction\<close>) and the
  inner loop of \<open>_add_revision_steps\<close> (\<open>field\<close> is \<open>task\<close>): the step built from one item
  of the parsed reply.
\<close>

definition step_from_item :: "env \<Rightarrow> string \<Rightarrow> int \<Rightarrow> json \<Rightarrow> py_error + WorkflowStep" where
  "step_from_item env field sid item =
     (case py_get item ''agent'' (JStr ''RESEARCH'') of
        Inl e \<Rightarrow> Inl e
      | Inr a \<Rightarrow>
          (case py_upper env a of
             Inl e \<Rightarrow> Inl e
           | Inr agent_name \<Rightarrow>
               (case py_get item field (JStr []) of
                  Inl e \<Rightarrow> Inl e
                | Inr instr \<Rightarrow> Inr (new_step sid (role_or_research agent_name) instr))))"

text \<open>
  \<open>for item in items: steps.append(...); step_id += 1\<close>, returning the list and the
  counter.
\<close>

fun append_steps ::
  "env \<Rightarrow> string \<Rightarrow> json list \<Rightarrow> WorkflowStep list \<Rightarrow> int \<Rightarrow>
   py_error + (WorkflowStep list \<times> int)" where
  "append_steps env field [] acc sid = Inr (acc, sid)"
| "append_steps env field (item # rest) acc sid =
     (case step_from_item env field sid item of
        Inl e \<Rightarrow> Inl e
      | Inr st \<Rightarrow> append_steps env field rest (acc @ [st]) (sid + 1))"

definition default_steps :: "Workflow \<Rightarrow> WorkflowStep list" where
  "default_steps w =
     [new_step 1 TRIAGE (JStr (''Classify and prioritize: '' @ user_request w)),
      new_step 2 RESEARCH (JStr (''Research relevant data for: '' @ user_request w)),
      new_step 3 COMPLIANCE
        (JStr (''Check compliance requirements for: '' @ user_request w)),
      new_step 4 REVIEW (JStr ''Review all findings and identify gaps''),
      new_step 5 OUTPUT (JStr ''Create final response for user'')]"

text \<open>
  \<open>_plan_workflow\<close>. The call of the planner is recorded in \<open>calls\<close>;
  \<open>result["success"]\<close> and \<open>result["parsed"]\<close> are subscripts, so a missing key is
  \<open>KeyError\<close>.
\<close>

definition plan_workflow ::
  "env \<Rightarrow> run_state \<Rightarrow> (py_error \<times> run_state) + (WorkflowStep list \<times> run_state)" where
  "plan_workflow env s =
     (let w = workflow s;
          instr = JStr (''Plan a workflow for this user request: '' @ user_request w);
          result = execute env (length (calls s)) ORCHESTRATOR instr None None;
          s' = s\<lparr>calls := calls s @ [mk_request ORCHESTRATOR instr None None]\<rparr>
      in case map_of result ''success'' of
           None \<Rightarrow> Inl (KeyError, s')
         | Some ok \<Rightarrow>
             if truthy ok \<and> truthy (dict_get result ''parsed'' JNull) then
               (case map_of result ''parsed'' of
                  None \<Rightarrow> Inl (KeyError, s')
                | Some plan \<Rightarrow>
                    (case py_get plan ''workflow_steps'' (JArr []) of
                       Inl e \<Rightarrow> Inl (e, s')
                     | Inr ws \<Rightarrow>
                         (case py_iter ws of
                            Inl e \<Rightarrow> Inl (e, s')
                          | Inr items \<Rightarrow>
                              (case append_steps env ''instruction'' items [] 1 of
                                 Inl e \<Rightarrow> Inl (e, s')
                               | Inr (planned, next_id) \<Rightarrow> Inr (planned, s')))))
             else Inr (default_steps w, s'))"

subsection \<open>WorkflowOrchestrator: executing one step\<close>

text \<open>
  The context \<open>_execute_step\<close> gathers: \<open>context[prev.agent.value] = prev.output_data\<close> for
  the steps before \<open>step\<close> that have output, in list order, then the user request.
\<close>

definition gather_context :: "Workflow \<Rightarrow> WorkflowStep \<Rightarrow> pydict" where
  "gather_context w step =
     AList.update ''user_request'' (JStr (user_request w))
       (fold (\<lambda>prev_step context.
                if step_id prev_step < step_id step \<and> output_data prev_step \<noteq> []
                then AList.update (role_value (agent prev_step))
                       (JObj (output_data prev_step)) context
                else context)
             (steps w) [])"

text \<open>
  \<open>_execute_step(workflow, workflow.steps[i])\<close>: the step is an element of the list, and
  the assignments to its fields are updates of the list at \<open>i\<close>.
\<close>

definition execute_step :: "env \<Rightarrow> nat \<Rightarrow> run_state \<Rightarrow> (py_error \<times> run_state) + run_state" where
  "execute_step env i s =
     (let w = workflow s;
          step = (steps w ! i)\<lparr>status := ''in_progress''\<rparr>;
          w1 = w\<lparr>steps := (steps w)[i := step]\<rparr>;
          context = gather_context w1 step;
          knowledge_query =
            (if can_query_knowledge (agent step) then Some (user_request w1) else None);
          result = execute env (length (calls s)) (agent step) (instruction step)
                     (Some context) knowledge_query;
          s1 = s\<lparr>workflow := w1,
                 calls := calls s @
                   [mk_request (agent step) (instruction step) (Some context) knowledge_query]\<rparr>
      in case map_of result ''success'' of
           None \<Rightarrow> Inl (KeyError, s1)
         | Some ok \<Rightarrow>
             (let step' =
                    (if truthy ok
                     then step\<lparr>status := ''completed'', output_data := result\<rparr>
                     else step\<lparr>status := ''failed'',
                               error := Some (dict_get result ''error'' (JStr ''Unknown error''))\<rparr>);
                  entry = [(''step_id'', JInt (step_id step')),
                           (''agent'', JStr (role_value (agent step'))),
                           (''instruction'', instruction step'),
                           (''result'', JObj result)]
              in Inr (s1\<lparr>workflow := w1\<lparr>steps := (steps w1)[i := step'],
                                   conversation_history :=
                                     conversation_history w1 @ [entry]\<rparr>\<rparr>)))"

subsection \<open>WorkflowOrchestrator: revision\<close>

text \<open>
  \<open>_check_if_revision_needed\<close>: the scan returns at the first reviewer step that has
  output and a truthy \<open>parsed\<close> entry.
\<close>

fun revision_needed_scan :: "WorkflowStep list \<Rightarrow> py_error + bool" where
  "revision_needed_scan [] = Inr False"
| "revision_needed_scan (step # rest) =
     (if agent step = REVIEW \<and> output_data step \<noteq> [] then
        (let parsed = dict_get (output_data step) ''parsed'' (JObj []) in
         if truthy parsed then
           (case py_get parsed ''additional_work_needed'' (JArr []) of
              Inl e \<Rightarrow> Inl e
            | Inr additional_work \<Rightarrow>
                (case py_get parsed ''ready_for_output'' (JBool True) of
                   Inl e \<Rightarrow> Inl e
                 | Inr ready_for_output \<Rightarrow>
                     Inr (truthy additional_work \<or> \<not> truthy ready_for_output)))
         else revision_needed_scan rest)
      else revision_needed_scan rest)"

definition check_if_revision_needed :: "Workflow \<Rightarrow> py_error + bool" where
  "check_if_revision_needed w = revision_needed_scan (steps w)"

text \<open>
  \<open>_add_revision_steps\<close>: the outer loop visits every reviewer step with a truthy
  \<open>parsed\<close> entry and appends one step for each of its work items.
\<close>

fun revision_scan ::
  "env \<Rightarrow> WorkflowStep list \<Rightarrow> WorkflowStep list \<Rightarrow> int \<Rightarrow>
   py_error + (WorkflowStep list \<times> int)" where
  "revision_scan env [] new_steps next_step_id = Inr (new_steps, next_step_id)"
| "revision_scan env (step # rest) new_steps next_step_id =
     (if agent step = REVIEW \<and> output_data step \<noteq> [] then
        (let parsed = dict_get (output_data step) ''parsed'' (JObj []) in
         if truthy parsed then
           (case py_get parsed ''additional_work_needed'' (JArr []) of
              Inl e \<Rightarrow> Inl e
            | Inr work \<Rightarrow>
                (case py_iter work of
                   Inl e \<Rightarrow> Inl e
                 | Inr items \<Rightarrow>
                     (case append_steps env ''task'' items new_steps next_step_id of
                        Inl e \<Rightarrow> Inl e
                      | Inr (new_steps', next_step_id') \<Rightarrow>
                          revision_scan env rest new_steps' next_step_id')))
         else revision_scan env rest new_steps next_step_id)
      else revision_scan env rest new_steps next_step_id)"

definition add_revision_steps :: "env \<Rightarrow> Workflow \<Rightarrow> py_error + WorkflowStep list" where
  "add_revision_steps env w =
     (case revision_scan env (steps w) [] (int (length (steps w)) + 1) of
        Inl e \<Rightarrow> Inl e
      | Inr (new_steps, next_step_id) \<Rightarrow>
          Inr (if new_steps \<noteq> []
               then new_steps @
                 [new_step next_step_id REVIEW
                    (JStr ''Review the additional findings and determine if analysis is complete'')]
               else new_steps))"

subsection \<open>WorkflowOrchestrator.run_workflow\<close>

text \<open>
  \<open>if stream_callback: stream_callback(event, message)\<close> for a message that is a constant or
  built from the agent's name and the step's status: nothing happens without a callback;
  with one, the call is logged and returns or raises as the callback does.
\<close>

definition notify :: "env \<Rightarrow> string \<Rightarrow> run_state \<Rightarrow> (py_error \<times> run_state) + run_state" where
  "notify env event s =
     (case stream_callback env of
        None \<Rightarrow> Inr s
      | Some callback \<Rightarrow>
          (case callback (length (events s)) event of
             None \<Rightarrow> Inr (s\<lparr>events := events s @ [event]\<rparr>)
           | Some e \<Rightarrow> Inl (e, s\<lparr>events := events s @ [event]\<rparr>)))"

text \<open>
  \<open>if stream_callback: stream_callback("executing", f"[{step.agent.value}] {step.instruction[:100]}...")\<close>:
  the message is built before the call, and the slice of the instruction is part of it.
\<close>

definition notify_executing ::
  "env \<Rightarrow> nat \<Rightarrow> run_state \<Rightarrow> (py_error \<times> run_state) + run_state" where
  "notify_executing env i s =
     (case stream_callback env of
        None \<Rightarrow> Inr s
      | Some callback \<Rightarrow>
          (case py_slice (instruction (steps (workflow s) ! i)) 100 of
             Inl e \<Rightarrow> Inl (e, s)
           | Inr shown \<Rightarrow> notify env ''executing'' s))"

text \<open>
  \<open>for step in workflow.steps: if step.status == "pending": ...\<close>, over the indices of the
  list: the callback is told, the step is executed, the callback is told again.
\<close>

fun run_pending :: "env \<Rightarrow> nat list \<Rightarrow> run_state \<Rightarrow> (py_error \<times> run_state) + run_state" where
  "run_pending env [] s = Inr s"
| "run_pending env (i # rest) s =
     (if status (steps (workflow s) ! i) = ''pending'' then
        (case notify_executing env i s of
           Inl es \<Rightarrow> Inl es
         | Inr s1 \<Rightarrow>
             (case execute_step env i s1 of
                Inl es \<Rightarrow> Inl es
              | Inr s2 \<Rightarrow>
                  (case notify env ''step_complete'' s2 of
                     Inl es \<Rightarrow> Inl es
                   | Inr s3 \<Rightarrow> run_pending env rest s3)))
      else run_pending env rest s)"

text \<open>\<open>workflow.iteration_count += 1\<close>, logged.\<close>

definition next_iteration :: "run_state \<Rightarrow> run_state" where
  "next_iteration s =
     s\<lparr>workflow := (workflow s)\<lparr>iteration_count := iteration_count (workflow s) + 1\<rparr>,
       count_log := count_log s @ [iteration_count (workflow s) + 1]\<rparr>"

text \<open>\<open>workflow.steps.extend(new_steps); workflow.state = WorkflowState.NEEDS_REVISION\<close>\<close>

definition extend_steps :: "WorkflowStep list \<Rightarrow> run_state \<Rightarrow> run_state" where
  "extend_steps new_steps s =
     s\<lparr>workflow := (workflow s)\<lparr>steps := steps (workflow s) @ new_steps, state := NEEDS_REVISION\<rparr>\<rparr>"

text \<open>
  Executing steps changes neither the counter nor the cap; the recursion of the loop below
  terminates for this reason.
\<close>

lemma execute_success_key:
  "map_of (execute env k a i c q) ''success'' = Some (JBool (succeeds env k (mk_request a i c q)))"
  by (simp add: execute_def succeeds_def split: reply.split loads_result.split)

lemma execute_step_counters:
  assumes "execute_step env i s = Inr s'"
  shows "iteration_count (workflow s') = iteration_count (workflow s)"
    and "max_iterations (workflow s') = max_iterations (workflow s)"
    and "count_log s' = count_log s"
  using assms
  by (auto simp: execute_step_def Let_def execute_success_key split: option.splits)

lemma notify_Inr: "notify env event s = Inr s' \<Longrightarrow> \<exists>x. s' = s\<lparr>events := x\<rparr>"
  by (cases "stream_callback env")
     (auto simp: notify_def split: option.splits intro: exI [of _ "events s"])

lemma notify_Inl: "notify env event s = Inl (e, s') \<Longrightarrow> \<exists>x. s' = s\<lparr>events := x\<rparr>"
  by (cases "stream_callback env") (auto simp: notify_def split: option.splits)

lemma notify_executing_Inr: "notify_executing env i s = Inr s' \<Longrightarrow> \<exists>x. s' = s\<lparr>events := x\<rparr>"
  by (cases "stream_callback env")
     (auto simp: notify_executing_def split: sum.splits
           intro: exI [of _ "events s"] dest: notify_Inr)

lemma notify_executing_Inl:
  "notify_executing env i s = Inl (e, s') \<Longrightarrow> \<exists>x. s' = s\<lparr>events := x\<rparr>"
  by (cases "stream_callback env")
     (auto simp: notify_executing_def split: sum.splits
           intro: exI [of _ "events s"] dest: notify_Inl)

lemma run_pending_counters:
  "run_pending env is s = Inr s' \<Longrightarrow>
     iteration_count (workflow s') = iteration_count (workflow s) \<and>
     max_iterations (workflow s') = max_iterations (workflow s) \<and> count_log s' = count_log s"
proof (induction "is" arbitrary: s)
  case Nil
  then show ?case by simp
next
  case (Cons i rest)
  show ?case
  proof (cases "status (steps (workflow s) ! i) = ''pending''")
    case True
    with Cons.prems obtain s1 s2 s3 where
      s1: "notify_executing env i s = Inr s1" and s2: "execute_step env i s1 = Inr s2"
      and s3: "notify env ''step_complete'' s2 = Inr s3" and r: "run_pending env rest s3 = Inr s'"
      by (auto split: sum.splits)
    from notify_executing_Inr [OF s1] notify_Inr [OF s3] obtain x y where
      "s1 = s\<lparr>events := x\<rparr>" "s3 = s2\<lparr>events := y\<rparr>" by blast
    with Cons.IH [OF r] execute_step_counters [OF s2] show ?thesis by simp
  next
    case False
    with Cons.prems have "run_pending env rest s = Inr s'" by simp
    from Cons.IH [OF this] show ?thesis .
  qed
qed

text \<open>The \<open>while\<close> loop of \<open>run_workflow\<close>.\<close>

function run_loop :: "env \<Rightarrow> run_state \<Rightarrow> (py_error \<times> run_state) + run_state" where
  "run_loop env s =
     (if iteration_count (workflow s) < max_iterations (workflow s) then
        (case run_pending env [0..<length (steps (workflow s))] (next_iteration s) of
           Inl es \<Rightarrow> Inl es
         | Inr s2 \<Rightarrow>
             (case check_if_revision_needed (workflow s2) of
                Inl e \<Rightarrow> Inl (e, s2)
              | Inr needed \<Rightarrow>
                  if needed then
                    (case notify env ''revision'' s2 of
                       Inl es \<Rightarrow> Inl es
                     | Inr s3 \<Rightarrow>
                         (case add_revision_steps env (workflow s3) of
                            Inl e \<Rightarrow> Inl (e, s3)
                          | Inr new_steps \<Rightarrow> run_loop env (extend_steps new_steps s3)))
                  else Inr s2))
      else Inr s)"
  by pat_completeness auto
termination
proof (relation "measure (\<lambda>(env, s). nat (max_iterations (workflow s) - iteration_count (workflow s)))")
  show "wf (measure (\<lambda>(env, s). nat (max_iterations (workflow s) - iteration_count (workflow s))))"
    by simp
next
  fix env s s2 needed s3 new_steps
  assume lt: "iteration_count (workflow s) < max_iterations (workflow s)"
    and rp: "run_pending env [0..<length (steps (workflow s))] (next_iteration s) = Inr s2"
    and nt: "notify env ''revision'' s2 = Inr s3"
  from notify_Inr [OF nt] obtain x where s3: "s3 = s2\<lparr>events := x\<rparr>" by blast
  from run_pending_counters [OF rp]
  have "iteration_count (workflow s2) = iteration_count (workflow s) + 1"
    and "max_iterations (workflow s2) = max_iterations (workflow s)"
    by (simp_all add: next_iteration_def)
  with lt s3 show "((env, extend_steps new_steps s3), (env, s))
      \<in> measure (\<lambda>(env, s). nat (max_iterations (workflow s) - iteration_count (workflow s)))"
    by (simp add: extend_steps_def)
qed

declare run_loop.simps [simp del]

text \<open>
  The part of \<open>run_workflow\<close> after the loop: \<open>final_output\<close> is read from the last
  completed output step, or from a forced output step appended and executed now.
\<close>

definition final_output_phase :: "env \<Rightarrow> run_state \<Rightarrow> (py_error \<times> run_state) + run_state" where
  "final_output_phase env s =
     (let w = workflow s;
          output_steps = filter (\<lambda>st. agent st = OUTPUT \<and> status st = ''completed'') (steps w)
      in if output_steps \<noteq> [] then
           Inr (s\<lparr>workflow := w\<lparr>final_output :=
                   Some (dict_get (output_data (last output_steps)) ''raw_response'' (JStr []))\<rparr>\<rparr>)
         else
           (let n = length (steps w);
                output_step = new_step (int n + 1) OUTPUT
                  (JStr ''Create final response synthesizing all agent findings'');
                s1 = s\<lparr>workflow := w\<lparr>steps := steps w @ [output_step]\<rparr>\<rparr>
            in case execute_step env n s1 of
                 Inl es \<Rightarrow> Inl es
               | Inr s2 \<Rightarrow>
                   Inr (s2\<lparr>workflow := (workflow s2)\<lparr>final_output :=
                          Some (dict_get (output_data (steps (workflow s2) ! n)) ''raw_response''
                                  (JStr []))\<rparr>\<rparr>)))"

text \<open>
  The part of \<open>run_workflow\<close> before the loop: the state is set, the callback is told, and
  \<open>_plan_workflow\<close> is called; its result is assigned to \<open>workflow.steps\<close> by \<open>run_workflow\<close>
  below.
\<close>

definition planning_phase ::
  "env \<Rightarrow> run_state \<Rightarrow> (py_error \<times> run_state) + (WorkflowStep list \<times> run_state)" where
  "planning_phase env s =
     (case notify env ''planning'' (s\<lparr>workflow := (workflow s)\<lparr>state := IN_PROGRESS\<rparr>\<rparr>) of
        Inl es \<Rightarrow> Inl es
      | Inr s1 \<Rightarrow> plan_workflow env s1)"

definition run_workflow :: "env \<Rightarrow> run_state \<Rightarrow> (py_error \<times> run_state) + run_state" where
  "run_workflow env s =
     (case planning_phase env s of
        Inl es \<Rightarrow> Inl es
      | Inr (planned, s2) \<Rightarrow>
          (case run_loop env (s2\<lparr>workflow := (workflow s2)\<lparr>steps := planned\<rparr>\<rparr>) of
             Inl es \<Rightarrow> Inl es
           | Inr s3 \<Rightarrow>
               (case final_output_phase env s3 of
                  Inl es \<Rightarrow> Inl es
                | Inr s4 \<Rightarrow>
                    notify env ''complete''
                      (s4\<lparr>workflow := (workflow s4)\<lparr>state := COMPLETED\<rparr>\<rparr>))))"

subsection \<open>WorkflowOrchestrator.get_workflow_summary\<close>

record summary =
  sum_workflow_id :: string
  sum_user_request :: string
  sum_state :: string
  sum_iterations :: int
  steps_executed :: nat
  steps_failed :: nat
  agents_involved :: "string set"
  sum_final_output :: "json option"
  sum_conversation_history :: "pydict list"

definition get_workflow_summary :: "Workflow \<Rightarrow> summary" where
  "get_workflow_summary w =
     \<lparr>sum_workflow_id = workflow_id w,
      sum_user_request = user_request w,
      sum_state = state_value (state w),
      sum_iterations = iteration_count w,
      steps_executed = length (filter (\<lambda>st. status st = ''completed'') (steps w)),
      steps_failed = length (filter (\<lambda>st. status st = ''failed'') (steps w)),
      agents_involved = set (map (\<lambda>st. role_value (agent st)) (steps w)),
      sum_final_output = final_output w,
      sum_conversation_history = conversation_history w\<rparr>"

section \<open>Derived notions and basic facts\<close>

text \<open>
  The state in which a call of \<open>run_workflow\<close> ends, whether it returns or raises; the
  request \<open>_execute_step\<close> sends for the step at index \<open>i\<close>, and the result it gets.
\<close>

definition outcome_state :: "(py_error \<times> run_state) + run_state \<Rightarrow> run_state" where
  "outcome_state r = (case r of Inl (e, s) \<Rightarrow> s | Inr s \<Rightarrow> s)"

definition step_request :: "run_state \<Rightarrow> nat \<Rightarrow> request" where
  "step_request s i =
     (let w = workflow s; step = steps w ! i
      in mk_request (agent step) (instruction step) (Some (gather_context w step))
           (if can_query_knowledge (agent step) then Some (user_request w) else None))"

definition step_result :: "env \<Rightarrow> run_state \<Rightarrow> nat \<Rightarrow> pydict" where
  "step_result env s i =
     (let w = workflow s; step = steps w ! i
      in execute env (length (calls s)) (agent step) (instruction step)
           (Some (gather_context w step))
           (if can_query_knowledge (agent step) then Some (user_request w) else None))"

text \<open>
  What identifies a step (position, agent, instruction), a list of steps numbered
  consecutively from \<open>n\<close>, the invariant of the run for the positions, and the output step
  that \<open>run_workflow\<close> forces when no output step has completed.
\<close>

definition step_ident :: "WorkflowStep \<Rightarrow> int \<times> AgentRole \<times> json" where
  "step_ident st = (step_id st, agent st, instruction st)"

definition numbered_from :: "int \<Rightarrow> WorkflowStep list \<Rightarrow> bool" where
  "numbered_from n xs = (map step_id xs = map (\<lambda>i. n + int i) [0..<length xs])"

definition forced_output_step :: "nat \<Rightarrow> WorkflowStep" where
  "forced_output_step n =
     new_step (int n + 1) OUTPUT (JStr ''Create final response synthesizing all agent findings'')"

definition positions_kept :: "WorkflowStep list \<Rightarrow> run_state \<Rightarrow> bool" where
  "positions_kept planned s =
     (numbered_from 1 (steps (workflow s)) \<and>
      prefix (map step_ident planned) (map step_ident (steps (workflow s))))"

text \<open>The invariant of the run for the iteration counter and its log.\<close>

definition count_inv :: "int \<Rightarrow> int list \<Rightarrow> int \<Rightarrow> run_state \<Rightarrow> bool" where
  "count_inv c0 log0 cap s =
     (max_iterations (workflow s) = cap \<and>
      (\<exists>n. count_log s = log0 @ map (\<lambda>i. c0 + 1 + int i) [0..<n] \<and>
           iteration_count (workflow s) = c0 + int n \<and> (0 < n \<longrightarrow> c0 + int n \<le> cap)))"

text \<open>A step has output exactly when it is completed.\<close>

definition outputs_agree :: "run_state \<Rightarrow> bool" where
  "outputs_agree s =
     (\<forall>st \<in> set (steps (workflow s)). (output_data st \<noteq> []) = (status st = ''completed''))"

text \<open>
  The log entries added since the log had length \<open>h0\<close> are those of the steps that are no
  longer pending, one entry for each.
\<close>

definition logged_once :: "nat \<Rightarrow> run_state \<Rightarrow> bool" where
  "logged_once h0 s =
     (h0 \<le> length (conversation_history (workflow s)) \<and>
      mset (map (\<lambda>entry. map_of entry ''step_id'')
             (drop h0 (conversation_history (workflow s)))) =
      mset (map (\<lambda>st. Some (JInt (step_id st)))
             (filter (\<lambda>st. status st \<noteq> ''pending'') (steps (workflow s)))))"

subsection \<open>Concrete scenarios\<close>

text \<open>
  Environments for the examples, without a progress callback unless it is said: an ASCII
  \<open>upper\<close>, the table of \<open>json.loads\<close> on the reply texts the scripted services below produce
  (any other of their texts is not JSON), a workflow as \<open>create_workflow\<close> makes it with the
  cap the API route assigns, and services scripted by agent role and call number.
\<close>

definition ascii_upper :: "string \<Rightarrow> string" where
  "ascii_upper = map (\<lambda>c. let n = (of_char c :: nat) in
                           if 97 \<le> n \<and> n \<le> 122 then char_of (n - 32) else c)"

definition json_loads_demo :: "string \<Rightarrow> loads_result" where
  \<open>json_loads_demo text =
     (if text = ''{"workflow_steps": []}'' then Parsed (JObj [(''workflow_steps'', JArr [])])
      else if text = ''[1]'' then Parsed (JArr [JInt 1])
      else if text = ''{"ready_for_output": false, "additional_work_needed": [{"agent": "research", "task": "dig"}]}''
        then Parsed (JObj [(''ready_for_output'', JBool False),
                         (''additional_work_needed'',
                           JArr [JObj [(''agent'', JStr ''research''), (''task'', JStr ''dig'')]])])
      else if text = ''{"ready_for_output": true, "additional_work_needed": []}''
        then Parsed (JObj [(''ready_for_output'', JBool True), (''additional_work_needed'', JArr [])])
      else if text = ''{"workflow_steps": [{"agent": "auditor", "instruction": "audit"}, {"agent": "review", "instruction": "check"}]}''
        then Parsed (JObj [(''workflow_steps'',
                           JArr [JObj [(''agent'', JStr ''auditor''), (''instruction'', JStr ''audit'')],
                                 JObj [(''agent'', JStr ''review''), (''instruction'', JStr ''check'')]])])
      else if text = ''{"ready_for_output": false, "additional_work_needed": [{"agent": "auditor", "task": "dig"}]}''
        then Parsed (JObj [(''ready_for_output'', JBool False),
                         (''additional_work_needed'',
                           JArr [JObj [(''agent'', JStr ''auditor''), (''task'', JStr ''dig'')]])])
      else if text = ''{"workflow_steps": [{"agent": "research", "instruction": 5}]}''
        then Parsed (JObj [(''workflow_steps'',
                           JArr [JObj [(''agent'', JStr ''research''), (''instruction'', JInt 5)]])])
      else JSONDecodeError)\<close>

definition demo_env :: "(nat \<Rightarrow> request \<Rightarrow> reply) \<Rightarrow> env" where
  "demo_env f =
     \<lparr>llm = f, json_loads = json_loads_demo, str_upper = ascii_upper, stream_callback = None\<rparr>"

text \<open>The same with a callback that returns from every call, as that of \<open>/workflow/stream\<close>.\<close>

definition watched_env :: "(nat \<Rightarrow> request \<Rightarrow> reply) \<Rightarrow> env" where
  "watched_env f = (demo_env f)\<lparr>stream_callback := Some (\<lambda>n event. None)\<rparr>"

definition fresh_run :: "int \<Rightarrow> run_state" where
  "fresh_run cap =
     \<lparr>workflow = (create_workflow ''wf_1'' ''Assess the outage'')\<lparr>max_iterations := cap\<rparr>,
      calls = [], count_log = [], events = []\<rparr>"

definition quiet_llm :: "nat \<Rightarrow> request \<Rightarrow> reply" where
  "quiet_llm k req =
     (if req_agent req = ORCHESTRATOR then Raises ''timeout'' else Content ''Some findings.'')"

definition empty_plan_llm :: "nat \<Rightarrow> request \<Rightarrow> reply" where
  \<open>empty_plan_llm k req =
     (if req_agent req = ORCHESTRATOR then Content ''{"workflow_steps": []}''
      else Content ''Some findings.'')\<close>

definition list_plan_llm :: "nat \<Rightarrow> request \<Rightarrow> reply" where
  "list_plan_llm k req =
     (if req_agent req = ORCHESTRATOR then Content ''[1]'' else Content ''Some findings.'')"

definition perpetual_llm :: "nat \<Rightarrow> request \<Rightarrow> reply" where
  \<open>perpetual_llm k req =
     (if req_agent req = ORCHESTRATOR then Raises ''timeout''
      else if req_agent req = REVIEW
        then Content ''{"ready_for_output": false, "additional_work_needed": [{"agent": "research", "task": "dig"}]}''
      else Content ''Some findings.'')\<close>

definition second_review_llm :: "nat \<Rightarrow> request \<Rightarrow> reply" where
  \<open>second_review_llm k req =
     (if req_agent req = ORCHESTRATOR then Raises ''timeout''
      else if req_agent req = REVIEW then
        (if k = 4
         then Content ''{"ready_for_output": false, "additional_work_needed": [{"agent": "research", "task": "dig"}]}''
         else Content ''{"ready_for_output": true, "additional_work_needed": []}'')
      else if req_agent req = RESEARCH then
        (if k = 2 then Content ''Findings A'' else Content ''Findings B'')
      else Content ''Some findings.'')\<close>

definition unknown_agent_llm :: "nat \<Rightarrow> request \<Rightarrow> reply" where
  \<open>unknown_agent_llm k req =
     (if req_agent req = ORCHESTRATOR
        then Content ''{"workflow_steps": [{"agent": "auditor", "instruction": "audit"}, {"agent": "review", "instruction": "check"}]}''
      else if req_agent req = REVIEW
        then Content ''{"ready_for_output": false, "additional_work_needed": [{"agent": "auditor", "task": "dig"}]}''
      else Content ''Some findings.'')\<close>

definition failing_review_llm :: "nat \<Rightarrow> request \<Rightarrow> reply" where
  "failing_review_llm k req =
     (if req_agent req = ORCHESTRATOR then Raises ''timeout''
      else if req_agent req = RESEARCH then Raises ''quota exceeded''
      else if req_agent req = REVIEW then Content ''[1]''
      else Content ''Some findings.'')"

definition numeric_plan_llm :: "nat \<Rightarrow> request \<Rightarrow> reply" where
  \<open>numeric_plan_llm k req =
     (if req_agent req = ORCHESTRATOR
        then Content ''{"workflow_steps": [{"agent": "research", "instruction": 5}]}''
      else Content ''Some findings.'')\<close>

text \<open>
  A service whose first reply is an integer literal of 4301 digits, whose second reply has
  no text and whose third reply is the JSON text \<open>null\<close>, with \<open>json.loads\<close> on these texts
  (Python 3.11 and later convert at most 4300 digits).
\<close>

definition odd_replies_llm :: "nat \<Rightarrow> request \<Rightarrow> reply" where
  "odd_replies_llm k req =
     (if k = 0 then Content (replicate 4301 (CHR ''7''))
      else if k = 1 then NoContent
      else Content ''null'')"

definition json_loads_limits :: "string \<Rightarrow> loads_result" where
  "json_loads_limits text =
     (if text = ''null'' then Parsed JNull
      else if text = replicate 4301 (CHR ''7'')
        then OtherException
          ''Exceeds the limit (4300 digits) for integer string conversion: value has 4301 digits; use sys.set_int_max_str_digits() to increase the limit''
      else JSONDecodeError)"

definition limits_env :: env where
  "limits_env =
     \<lparr>llm = odd_replies_llm, json_loads = json_loads_limits, str_upper = ascii_upper,
      stream_callback = None\<rparr>"

subsection \<open>One step, the step loop and the revision loop\<close>

text \<open>The state right after planning has fallen back to the default steps.\<close>

definition planned_run :: run_state where
  "planned_run =
     (fresh_run 5)\<lparr>workflow := (workflow (fresh_run 5))
        \<lparr>steps := default_steps (workflow (fresh_run 5))\<rparr>\<rparr>"

lemma outcome_state_simps [simp]:
  "outcome_state (Inl (e, s)) = s" "outcome_state (Inr s) = s"
  by (simp_all add: outcome_state_def)

lemma append_steps_Inr:
  "append_steps env field items acc sid = Inr (res, sid') \<Longrightarrow>
     \<exists>produced. res = acc @ produced \<and> length produced = length items \<and>
       sid' = sid + int (length items) \<and>
       (\<forall>i<length items. step_from_item env field (sid + int i) (items ! i) = Inr (produced ! i))"
proof (induction items arbitrary: acc sid)
  case Nil
  then show ?case by simp
next
  case (Cons item rest)
  from Cons.prems obtain st where
    st: "step_from_item env field sid item = Inr st"
    and r: "append_steps env field rest (acc @ [st]) (sid + 1) = Inr (res, sid')"
    by (auto split: sum.splits)
  from Cons.IH [OF r] obtain produced where
    p: "res = (acc @ [st]) @ produced" "length produced = length rest"
       "sid' = sid + 1 + int (length rest)"
       "\<forall>i<length rest. step_from_item env field (sid + 1 + int i) (rest ! i) = Inr (produced ! i)"
    by blast
  have "\<forall>i<length (item # rest).
          step_from_item env field (sid + int i) ((item # rest) ! i) = Inr ((st # produced) ! i)"
  proof (intro allI impI)
    fix i assume "i < length (item # rest)"
    then show "step_from_item env field (sid + int i) ((item # rest) ! i) = Inr ((st # produced) ! i)"
      using st p(4) by (cases i) (auto simp: algebra_simps)
  qed
  with p show ?case
    by (intro exI [of _ "st # produced"]) auto
qed

lemma step_from_item_fields:
  "step_from_item env field sid item = Inr st \<Longrightarrow>
     step_id st = sid \<and> status st = ''pending'' \<and> output_data st = [] \<and> error st = None"
  by (auto simp: step_from_item_def new_step_def split: sum.splits)

lemma fold_context_cong:
  "list_all2 (\<lambda>a b. step_id a = step_id b \<and> output_data a = output_data b \<and> agent a = agent b) xs ys \<Longrightarrow>
   fold (\<lambda>prev_step context.
                if step_id prev_step < n \<and> output_data prev_step \<noteq> []
                then AList.update (role_value (agent prev_step))
                       (JObj (output_data prev_step)) context
                else context) xs acc =
   fold (\<lambda>prev_step context.
                if step_id prev_step < n \<and> output_data prev_step \<noteq> []
                then AList.update (role_value (agent prev_step))
                       (JObj (output_data prev_step)) context
                else context) ys acc"
  by (induction xs ys arbitrary: acc rule: list_all2_induct) auto

lemma gather_context_status:
  assumes "i < length (steps w)"
  shows "gather_context (w\<lparr>steps := (steps w)[i := (steps w ! i)\<lparr>status := x\<rparr>]\<rparr>)
           ((steps w ! i)\<lparr>status := x\<rparr>) = gather_context w (steps w ! i)"
proof -
  have "list_all2 (\<lambda>a b. step_id a = step_id b \<and> output_data a = output_data b \<and> agent a = agent b)
          ((steps w)[i := (steps w ! i)\<lparr>status := x\<rparr>]) (steps w)"
    using assms by (auto simp: list_all2_conv_all_nth nth_list_update)
  from fold_context_cong [OF this] show ?thesis
    by (simp add: gather_context_def)
qed

lemma execute_step_Inr:
  assumes "i < length (steps (workflow s))"
  shows "execute_step env i s =
     Inr (s\<lparr>workflow := (workflow s)
               \<lparr>steps := (steps (workflow s))
                  [i := (if truthy (dict_get (step_result env s i) ''success'' JNull)
                         then (steps (workflow s) ! i)
                                \<lparr>status := ''completed'', output_data := step_result env s i\<rparr>
                         else (steps (workflow s) ! i)
                                \<lparr>status := ''failed'',
                                 error := Some (dict_get (step_result env s i) ''error''
                                                  (JStr ''Unknown error''))\<rparr>)],
                conversation_history := conversation_history (workflow s) @
                  [[(''step_id'', JInt (step_id (steps (workflow s) ! i))),
                    (''agent'', JStr (role_value (agent (steps (workflow s) ! i)))),
                    (''instruction'', instruction (steps (workflow s) ! i)),
                    (''result'', JObj (step_result env s i))]]\<rparr>,
             calls := calls s @ [step_request s i]\<rparr>)"
  using assms gather_context_status [OF assms, of "''in_progress''"]
  by (simp add: execute_step_def Let_def execute_success_key step_result_def step_request_def
        dict_get_def)

lemma execute_step_length:
  "i < length (steps (workflow s)) \<Longrightarrow> execute_step env i s = Inr s' \<Longrightarrow>
     length (steps (workflow s')) = length (steps (workflow s))"
  by (auto simp: execute_step_Inr)

text \<open>
  One round of the step loop on a pending step: the message or the first call of the
  callback raises, or the step is executed and the second call raises, or the loop goes on.
  Calls of the callback change the log of events only, and without a callback nothing
  raises.
\<close>

lemma run_pending_step_cases:
  assumes "status (steps (workflow s) ! i) = ''pending''" and "i < length (steps (workflow s))"
  obtains (told_raises) e x where
      "run_pending env (i # rest) s = Inl (e, s\<lparr>events := x\<rparr>)" "stream_callback env \<noteq> None"
  | (done_raises) e x s2 y where
      "execute_step env i (s\<lparr>events := x\<rparr>) = Inr s2"
      "run_pending env (i # rest) s = Inl (e, s2\<lparr>events := y\<rparr>)" "stream_callback env \<noteq> None"
  | (continues) x s2 y where
      "execute_step env i (s\<lparr>events := x\<rparr>) = Inr s2"
      "run_pending env (i # rest) s = run_pending env rest (s2\<lparr>events := y\<rparr>)"
      "stream_callback env = None \<longrightarrow> x = events s \<and> y = events s2"
proof (cases "notify_executing env i s")
  case (Inl es)
  obtain e s' where es: "es = (e, s')" by (cases es)
  from notify_executing_Inl [OF Inl [unfolded es]] obtain x where "s' = s\<lparr>events := x\<rparr>" by blast
  moreover from Inl have "stream_callback env \<noteq> None"
    by (auto simp: notify_executing_def split: option.splits)
  ultimately show ?thesis using Inl es assms(1) told_raises [of e x] by simp
next
  case (Inr s1)
  from notify_executing_Inr [OF Inr] obtain x where s1: "s1 = s\<lparr>events := x\<rparr>" by blast
  have x: "stream_callback env = None \<longrightarrow> x = events s"
  proof
    assume "stream_callback env = None"
    with Inr have "s1 = s" by (simp add: notify_executing_def)
    with s1 have "events s = events (s\<lparr>events := x\<rparr>)" by simp
    then show "x = events s" by simp
  qed
  from assms(2) s1 obtain s2 where s2: "execute_step env i s1 = Inr s2"
    by (simp add: execute_step_Inr)
  show ?thesis
  proof (cases "notify env ''step_complete'' s2")
    case (Inl es)
    obtain e s' where es: "es = (e, s')" by (cases es)
    from notify_Inl [OF Inl [unfolded es]] obtain y where "s' = s2\<lparr>events := y\<rparr>" by blast
    moreover from Inl have "stream_callback env \<noteq> None"
      by (auto simp: notify_def split: option.splits)
    ultimately show ?thesis using Inl es Inr s1 s2 assms(1) done_raises [of x s2 e y] by simp
  next
    case s3: (Inr s3)
    from notify_Inr [OF s3] obtain y where y: "s3 = s2\<lparr>events := y\<rparr>" by blast
    have "stream_callback env = None \<longrightarrow> y = events s2"
    proof
      assume "stream_callback env = None"
      with s3 have "s3 = s2" by (simp add: notify_def)
      with y have "events s2 = events (s2\<lparr>events := y\<rparr>)" by simp
      then show "y = events s2" by simp
    qed
    with x show ?thesis using s3 y Inr s1 s2 assms(1) continues [of x s2 y] by simp
  qed
qed

lemma run_pending_inv:
  assumes step: "\<And>s i s'. P s \<Longrightarrow> i < length (steps (workflow s)) \<Longrightarrow>
            status (steps (workflow s) ! i) = ''pending'' \<Longrightarrow>
            execute_step env i s = Inr s' \<Longrightarrow> P s'"
    and ev: "\<And>s x. P s \<Longrightarrow> P (s\<lparr>events := x\<rparr>)"
  shows "P s \<Longrightarrow> \<forall>i \<in> set is. i < length (steps (workflow s)) \<Longrightarrow>
     P (outcome_state (run_pending env is s)) \<and>
     length (steps (workflow (outcome_state (run_pending env is s)))) =
       length (steps (workflow s))"
proof (induction "is" arbitrary: s)
  case Nil
  then show ?case by simp
next
  case (Cons i rest)
  show ?case
  proof (cases "status (steps (workflow s) ! i) = ''pending''")
    case False
    from Cons.prems have "\<forall>i \<in> set rest. i < length (steps (workflow s))" by simp
    from Cons.IH [OF Cons.prems(1) this] False show ?thesis by simp
  next
    case True
    from Cons.prems have i: "i < length (steps (workflow s))" by simp
    have P1: "P (s\<lparr>events := x\<rparr>)" for x by (rule ev [OF Cons.prems(1)])
    have exec: "P s2 \<and> length (steps (workflow s2)) = length (steps (workflow s))"
      if "execute_step env i (s\<lparr>events := x\<rparr>) = Inr s2" for x s2
      using step [OF P1 [of x] _ _ that] execute_step_length [OF _ that] i True by simp
    show ?thesis
    proof (rule run_pending_step_cases [OF True i, of env rest])
      fix e x
      assume "run_pending env (i # rest) s = Inl (e, s\<lparr>events := x\<rparr>)"
      with P1 [of x] show ?thesis by simp
    next
      fix e x s2 y
      assume "execute_step env i (s\<lparr>events := x\<rparr>) = Inr s2"
        and "run_pending env (i # rest) s = Inl (e, s2\<lparr>events := y\<rparr>)"
      with exec [of x s2] ev [of s2 y] show ?thesis by simp
    next
      fix x s2 y
      assume ex: "execute_step env i (s\<lparr>events := x\<rparr>) = Inr s2"
        and r: "run_pending env (i # rest) s = run_pending env rest (s2\<lparr>events := y\<rparr>)"
      from exec [OF ex] ev [of s2 y] have P3: "P (s2\<lparr>events := y\<rparr>)"
        and len: "length (steps (workflow (s2\<lparr>events := y\<rparr>))) = length (steps (workflow s))"
        by simp_all
      with Cons.prems have "\<forall>i \<in> set rest. i < length (steps (workflow (s2\<lparr>events := y\<rparr>)))"
        by simp
      from Cons.IH [OF P3 this] len show ?thesis unfolding r by simp
    qed
  qed
qed

lemma run_pending_no_callback:
  assumes "stream_callback env = None" and "\<forall>i \<in> set is. i < length (steps (workflow s))"
  shows "\<exists>s'. run_pending env is s = Inr s'"
  using assms(2)
proof (induction "is" arbitrary: s)
  case Nil
  then show ?case by simp
next
  case (Cons i rest)
  show ?case
  proof (cases "status (steps (workflow s) ! i) = ''pending''")
    case False
    with Cons show ?thesis by simp
  next
    case True
    from Cons.prems have i: "i < length (steps (workflow s))" by simp
    show ?thesis
    proof (rule run_pending_step_cases [OF True i, of env rest])
      fix x s2 y
      assume ex: "execute_step env i (s\<lparr>events := x\<rparr>) = Inr s2"
        and r: "run_pending env (i # rest) s = run_pending env rest (s2\<lparr>events := y\<rparr>)"
      from execute_step_length [OF _ ex] i Cons.prems
      have "\<forall>i \<in> set rest. i < length (steps (workflow (s2\<lparr>events := y\<rparr>)))" by simp
      from Cons.IH [OF this] r show ?thesis by simp
    qed (use assms(1) in simp_all)
  qed
qed

lemma next_iteration_steps [simp]:
  "steps (workflow (next_iteration s)) = steps (workflow s)"
  by (simp add: next_iteration_def)

lemma run_loop_inv:
  assumes "P s"
    and "\<And>s. P s \<Longrightarrow> iteration_count (workflow s) < max_iterations (workflow s) \<Longrightarrow>
            P (next_iteration s)"
    and "\<And>s i s'. P s \<Longrightarrow> i < length (steps (workflow s)) \<Longrightarrow>
            status (steps (workflow s) ! i) = ''pending'' \<Longrightarrow>
            execute_step env i s = Inr s' \<Longrightarrow> P s'"
    and "\<And>s new_steps. P s \<Longrightarrow> check_if_revision_needed (workflow s) = Inr True \<Longrightarrow>
            add_revision_steps env (workflow s) = Inr new_steps \<Longrightarrow>
            P (extend_steps new_steps s)"
    and "\<And>s x. P s \<Longrightarrow> P (s\<lparr>events := x\<rparr>)"
  shows "P (outcome_state (run_loop env s))"
  using assms
proof (induction env s rule: run_loop.induct)
  case (1 env s)
  note Ps = "1.prems"(1) and nxt = "1.prems"(2) and step = "1.prems"(3) and ext = "1.prems"(4)
    and ev = "1.prems"(5)
  show ?case
  proof (cases "iteration_count (workflow s) < max_iterations (workflow s)")
    case False
    with Ps show ?thesis by (simp add: run_loop.simps [of env s])
  next
    case True
    from nxt [OF Ps True] have Pn: "P (next_iteration s)" .
    have Pr: "P (outcome_state (run_pending env [0..<length (steps (workflow s))] (next_iteration s))) \<and>
          length (steps (workflow (outcome_state
            (run_pending env [0..<length (steps (workflow s))] (next_iteration s))))) =
          length (steps (workflow (next_iteration s)))"
    proof (rule run_pending_inv [where P = P])
      show "\<And>s i s'. P s \<Longrightarrow> i < length (steps (workflow s)) \<Longrightarrow>
            status (steps (workflow s) ! i) = ''pending'' \<Longrightarrow>
            execute_step env i s = Inr s' \<Longrightarrow> P s'" using step by blast
      show "\<And>s x. P s \<Longrightarrow> P (s\<lparr>events := x\<rparr>)" using ev by blast
      show "P (next_iteration s)" by (rule Pn)
      show "\<forall>i \<in> set [0..<length (steps (workflow s))].
            i < length (steps (workflow (next_iteration s)))" by simp
    qed
    show ?thesis
    proof (cases "run_pending env [0..<length (steps (workflow s))] (next_iteration s)")
      case (Inl es)
      with Pr True show ?thesis by (simp add: run_loop.simps [of env s])
    next
      case s2: (Inr s2)
      with Pr have P2: "P s2" by simp
      show ?thesis
      proof (cases "check_if_revision_needed (workflow s2)")
        case (Inl e)
        with True s2 P2 show ?thesis by (simp add: run_loop.simps [of env s])
      next
        case (Inr needed)
        show ?thesis
        proof (cases needed)
          case False
          with True s2 P2 Inr show ?thesis by (simp add: run_loop.simps [of env s])
        next
          case needed: True
          show ?thesis
          proof (cases "notify env ''revision'' s2")
            case (Inl es)
            obtain e s' where es: "es = (e, s')" by (cases es)
            from notify_Inl [OF Inl [unfolded es]] obtain x where "s' = s2\<lparr>events := x\<rparr>"
              by blast
            with ev [OF P2, of x] Inl es True s2 Inr needed show ?thesis
              by (simp add: run_loop.simps [of env s])
          next
            case s3: (Inr s3)
            from notify_Inr [OF s3] obtain x where x: "s3 = s2\<lparr>events := x\<rparr>" by blast
            with ev [OF P2, of x] have P3: "P s3" by simp
            show ?thesis
            proof (cases "add_revision_steps env (workflow s3)")
              case (Inl e)
              with True s2 P3 Inr needed s3 show ?thesis by (simp add: run_loop.simps [of env s])
            next
              case new: (Inr new_steps)
              from Inr needed x have chk: "check_if_revision_needed (workflow s3) = Inr True"
                by simp
              from ext [OF P3 chk new] have Pe: "P (extend_steps new_steps s3)" .
              have "P (outcome_state (run_loop env (extend_steps new_steps s3)))"
                by (rule "1.IH" [OF True s2 Inr needed s3 new Pe]) (use nxt step ext ev in blast)+
              with True s2 Inr needed s3 new
              show ?thesis by (simp add: run_loop.simps [of env s])
            qed
          qed
        qed
      qed
    qed
  qed
qed

subsection \<open>Numbering of planned and appended steps\<close>

lemma numbered_from_nth:
  "numbered_from n xs = (\<forall>i<length xs. step_id (xs ! i) = n + int i)"
  unfolding numbered_from_def by (subst list_eq_iff_nth_eq) simp

lemma numbered_from_append:
  "numbered_from n xs \<Longrightarrow> numbered_from (n + int (length xs)) ys \<Longrightarrow> numbered_from n (xs @ ys)"
  by (auto simp: numbered_from_nth nth_append)

lemma numbered_from_sorted:
  assumes "numbered_from n xs"
  shows "sorted_wrt (<) (map step_id xs)" and "distinct (map step_id xs)"
proof -
  from assms have eq: "map step_id xs = map (\<lambda>i. n + int i) [0..<length xs]"
    by (simp add: numbered_from_def)
  show "sorted_wrt (<) (map step_id xs)"
    unfolding eq by (simp add: sorted_wrt_map sorted_wrt_iff_nth_less)
  show "distinct (map step_id xs)"
    unfolding eq by (simp add: distinct_map inj_on_def)
qed

lemma append_steps_numbered:
  assumes "append_steps env field items acc sid = Inr (res, sid')"
  shows "\<exists>produced. res = acc @ produced \<and> numbered_from sid produced \<and>
           sid' = sid + int (length produced) \<and>
           (\<forall>st \<in> set produced. status st = ''pending'' \<and> output_data st = [] \<and> error st = None)"
proof -
  from append_steps_Inr [OF assms] obtain produced where
    p: "res = acc @ produced" "length produced = length items" "sid' = sid + int (length items)"
       "\<forall>i<length items. step_from_item env field (sid + int i) (items ! i) = Inr (produced ! i)"
    by blast
  have "\<forall>i<length produced. step_id (produced ! i) = sid + int i \<and>
          status (produced ! i) = ''pending'' \<and> output_data (produced ! i) = [] \<and>
          error (produced ! i) = None"
    using p(2,4) step_from_item_fields by metis
  then have "numbered_from sid produced"
    and "\<forall>st \<in> set produced. status st = ''pending'' \<and> output_data st = [] \<and> error st = None"
    by (auto simp: numbered_from_nth in_set_conv_nth)
  with p show ?thesis by auto
qed

lemma revision_scan_numbered:
  "revision_scan env sts acc sid = Inr (res, sid') \<Longrightarrow>
     \<exists>produced. res = acc @ produced \<and> numbered_from sid produced \<and>
       sid' = sid + int (length produced) \<and>
       (\<forall>st \<in> set produced. status st = ''pending'' \<and> output_data st = [] \<and> error st = None)"
proof (induction sts arbitrary: acc sid)
  case Nil
  then show ?case by (auto simp: numbered_from_def)
next
  case (Cons step rest)
  show ?case
  proof (cases "agent step = REVIEW \<and> output_data step \<noteq> [] \<and>
                truthy (dict_get (output_data step) ''parsed'' (JObj []))")
    case False
    with Cons.prems have "revision_scan env rest acc sid = Inr (res, sid')"
      by (auto simp: Let_def split: if_splits)
    from Cons.IH [OF this] show ?thesis .
  next
    case True
    with Cons.prems obtain items acc1 sid1 where
      a: "append_steps env ''task'' items acc sid = Inr (acc1, sid1)"
      and r: "revision_scan env rest acc1 sid1 = Inr (res, sid')"
      by (auto simp: Let_def split: sum.splits)
    from append_steps_numbered [OF a] obtain p1 where
      p1: "acc1 = acc @ p1" "numbered_from sid p1" "sid1 = sid + int (length p1)"
          "\<forall>st \<in> set p1. status st = ''pending'' \<and> output_data st = [] \<and> error st = None"
      by blast
    from Cons.IH [OF r] obtain p2 where
      p2: "res = acc1 @ p2" "numbered_from sid1 p2" "sid' = sid1 + int (length p2)"
          "\<forall>st \<in> set p2. status st = ''pending'' \<and> output_data st = [] \<and> error st = None"
      by blast
    from p1 p2 have "numbered_from sid (p1 @ p2)"
      by (simp add: numbered_from_append)
    with p1 p2 show ?thesis
      by (intro exI [of _ "p1 @ p2"]) auto
  qed
qed

lemma add_revision_steps_numbered:
  assumes "add_revision_steps env w = Inr new_steps"
  shows "numbered_from (int (length (steps w)) + 1) new_steps"
    and "\<forall>st \<in> set new_steps. status st = ''pending'' \<and> output_data st = [] \<and> error st = None"
proof -
  from assms obtain res sid' where
    r: "revision_scan env (steps w) [] (int (length (steps w)) + 1) = Inr (res, sid')"
    and n: "new_steps = (if res \<noteq> [] then res @ [new_step sid' REVIEW
                    (JStr ''Review the additional findings and determine if analysis is complete'')]
               else res)"
    by (auto simp: add_revision_steps_def split: sum.splits)
  from revision_scan_numbered [OF r] have
    p: "numbered_from (int (length (steps w)) + 1) res"
       "sid' = int (length (steps w)) + 1 + int (length res)"
       "\<forall>st \<in> set res. status st = ''pending'' \<and> output_data st = [] \<and> error st = None"
    by auto
  have "numbered_from (int (length (steps w)) + 1 + int (length res)) [new_step sid' REVIEW
                    (JStr ''Review the additional findings and determine if analysis is complete'')]"
    using p(2) by (simp add: numbered_from_def new_step_def)
  with p(1) show "numbered_from (int (length (steps w)) + 1) new_steps"
    unfolding n by (auto intro: numbered_from_append)
  from p(3) show "\<forall>st \<in> set new_steps. status st = ''pending'' \<and> output_data st = [] \<and> error st = None"
    unfolding n by (auto simp: new_step_def)
qed

lemma plan_workflow_numbered:
  assumes "plan_workflow env s = Inr (planned, s1)"
  shows "numbered_from 1 planned"
    and "\<forall>st \<in> set planned. status st = ''pending'' \<and> output_data st = [] \<and> error st = None"
    and "workflow s1 = workflow s"
    and "calls s1 = calls s @ [mk_request ORCHESTRATOR
            (JStr (''Plan a workflow for this user request: '' @ user_request (workflow s))) None None]"
    and "count_log s1 = count_log s"
proof -
  have "numbered_from 1 planned \<and>
        (\<forall>st \<in> set planned. status st = ''pending'' \<and> output_data st = [] \<and> error st = None)"
  proof (cases "planned = default_steps (workflow s)")
    case True
    then show ?thesis by (simp add: default_steps_def new_step_def numbered_from_def upt_rec)
  next
    case False
    with assms obtain items next_id where
      "append_steps env ''instruction'' items [] 1 = Inr (planned, next_id)"
      by (auto simp: plan_workflow_def Let_def split: option.splits if_splits sum.splits)
    from append_steps_numbered [OF this] show ?thesis by auto
  qed
  then show "numbered_from 1 planned"
    and "\<forall>st \<in> set planned. status st = ''pending'' \<and> output_data st = [] \<and> error st = None"
    by auto
  from assms show "workflow s1 = workflow s"
    and "calls s1 = calls s @ [mk_request ORCHESTRATOR
            (JStr (''Plan a workflow for this user request: '' @ user_request (workflow s))) None None]"
    and "count_log s1 = count_log s"
    by (auto simp: plan_workflow_def Let_def split: option.splits if_splits sum.splits)
qed

lemma plan_workflow_Inl:
  assumes "plan_workflow env s = Inl (e, s1)"
  shows "workflow s1 = workflow s" and "count_log s1 = count_log s"
  using assms
  by (auto simp: plan_workflow_def Let_def split: option.splits if_splits sum.splits)

lemma planning_phase_no_callback:
  "stream_callback env = None \<Longrightarrow>
     planning_phase env s =
       plan_workflow env (s\<lparr>workflow := (workflow s)\<lparr>state := IN_PROGRESS\<rparr>\<rparr>)"
  by (simp add: planning_phase_def notify_def)

lemma planning_phase_Inr:
  assumes "planning_phase env s = Inr (planned, s1)"
  shows "numbered_from 1 planned"
    and "\<forall>st \<in> set planned. status st = ''pending'' \<and> output_data st = [] \<and> error st = None"
    and "workflow s1 = (workflow s)\<lparr>state := IN_PROGRESS\<rparr>"
    and "calls s1 = calls s @ [mk_request ORCHESTRATOR
            (JStr (''Plan a workflow for this user request: '' @ user_request (workflow s))) None None]"
    and "count_log s1 = count_log s"
proof -
  from assms obtain s0 where
    n: "notify env ''planning'' (s\<lparr>workflow := (workflow s)\<lparr>state := IN_PROGRESS\<rparr>\<rparr>) = Inr s0"
    and p: "plan_workflow env s0 = Inr (planned, s1)"
    by (auto simp: planning_phase_def split: sum.splits)
  from notify_Inr [OF n] obtain x where
    s0: "s0 = s\<lparr>workflow := (workflow s)\<lparr>state := IN_PROGRESS\<rparr>, events := x\<rparr>"
    by auto
  from plan_workflow_numbered(1,2) [OF p]
  show "numbered_from 1 planned"
    and "\<forall>st \<in> set planned. status st = ''pending'' \<and> output_data st = [] \<and> error st = None"
    by simp_all
  from plan_workflow_numbered(3,4,5) [OF p] s0
  show "workflow s1 = (workflow s)\<lparr>state := IN_PROGRESS\<rparr>"
    and "calls s1 = calls s @ [mk_request ORCHESTRATOR
            (JStr (''Plan a workflow for this user request: '' @ user_request (workflow s))) None None]"
    and "count_log s1 = count_log s"
    by simp_all
qed

lemma planning_phase_Inl:
  assumes "planning_phase env s = Inl (e, s1)"
  shows "workflow s1 = (workflow s)\<lparr>state := IN_PROGRESS\<rparr>" and "count_log s1 = count_log s"
proof -
  let ?s = "s\<lparr>workflow := (workflow s)\<lparr>state := IN_PROGRESS\<rparr>\<rparr>"
  have "workflow s1 = (workflow s)\<lparr>state := IN_PROGRESS\<rparr> \<and> count_log s1 = count_log s"
  proof (cases "notify env ''planning'' ?s")
    case (Inl es)
    with assms have "notify env ''planning'' ?s = Inl (e, s1)"
      by (simp add: planning_phase_def)
    from notify_Inl [OF this] show ?thesis by auto
  next
    case (Inr s0)
    with assms have p: "plan_workflow env s0 = Inl (e, s1)"
      by (simp add: planning_phase_def)
    from notify_Inr [OF Inr] plan_workflow_Inl [OF p] show ?thesis by auto
  qed
  then show "workflow s1 = (workflow s)\<lparr>state := IN_PROGRESS\<rparr>" and "count_log s1 = count_log s"
    by simp_all
qed

subsection \<open>The phases of a run\<close>

lemma final_output_phase_cases:
  obtains (found) out where
      "final_output_phase env s = Inr (s\<lparr>workflow := (workflow s)\<lparr>final_output := Some out\<rparr>\<rparr>)"
      "\<exists>st \<in> set (steps (workflow s)). agent st = OUTPUT \<and> status st = ''completed''"
  | (forced) s2 out where
      "execute_step env (length (steps (workflow s)))
         (s\<lparr>workflow := (workflow s)\<lparr>steps := steps (workflow s) @
              [forced_output_step (length (steps (workflow s)))]\<rparr>\<rparr>) = Inr s2"
      "final_output_phase env s = Inr (s2\<lparr>workflow := (workflow s2)\<lparr>final_output := Some out\<rparr>\<rparr>)"
      "\<not> (\<exists>st \<in> set (steps (workflow s)). agent st = OUTPUT \<and> status st = ''completed'')"
proof (cases "filter (\<lambda>st. agent st = OUTPUT \<and> status st = ''completed'') (steps (workflow s)) = []")
  case False
  then have "\<exists>st \<in> set (steps (workflow s)). agent st = OUTPUT \<and> status st = ''completed''"
    by (auto simp: filter_empty_conv)
  with False found show ?thesis
    by (simp add: final_output_phase_def Let_def)
next
  case True
  then have none: "\<not> (\<exists>st \<in> set (steps (workflow s)). agent st = OUTPUT \<and> status st = ''completed'')"
    by (auto simp: filter_empty_conv)
  let ?s1 = "s\<lparr>workflow := (workflow s)\<lparr>steps := steps (workflow s) @
              [forced_output_step (length (steps (workflow s)))]\<rparr>\<rparr>"
  have "length (steps (workflow s)) < length (steps (workflow ?s1))" by simp
  from execute_step_Inr [OF this, of env] obtain s2 where
    s2: "execute_step env (length (steps (workflow s))) ?s1 = Inr s2" by blast
  with True have "final_output_phase env s =
     Inr (s2\<lparr>workflow := (workflow s2)\<lparr>final_output :=
        Some (dict_get (output_data (steps (workflow s2) ! length (steps (workflow s))))
                ''raw_response'' (JStr []))\<rparr>\<rparr>)"
    by (simp add: final_output_phase_def Let_def forced_output_step_def)
  with s2 none forced show ?thesis by blast
qed

text \<open>
  How a run ends: planning raises, the loop raises, or the final phase is done, the state
  is set to \<open>COMPLETED\<close> and the callback is told (it may raise then).
\<close>

lemma run_workflow_cases:
  obtains (plan_raises) e s1 where
      "planning_phase env s = Inl (e, s1)"
      "run_workflow env s = Inl (e, s1)"
  | (loop_raises) planned s1 e s2 where
      "planning_phase env s = Inr (planned, s1)"
      "run_loop env (s1\<lparr>workflow := (workflow s1)\<lparr>steps := planned\<rparr>\<rparr>) = Inl (e, s2)"
      "run_workflow env s = Inl (e, s2)"
  | (finished) planned s1 s3 s4 x where
      "planning_phase env s = Inr (planned, s1)"
      "run_loop env (s1\<lparr>workflow := (workflow s1)\<lparr>steps := planned\<rparr>\<rparr>) = Inr s3"
      "final_output_phase env s3 = Inr s4"
      "outcome_state (run_workflow env s) =
         s4\<lparr>workflow := (workflow s4)\<lparr>state := COMPLETED\<rparr>, events := x\<rparr>"
      "stream_callback env = None \<longrightarrow>
         run_workflow env s = Inr (s4\<lparr>workflow := (workflow s4)\<lparr>state := COMPLETED\<rparr>\<rparr>)"
proof (cases "planning_phase env s")
  case (Inl es)
  then show ?thesis using plan_raises [of "fst es" "snd es"]
    by (simp add: run_workflow_def)
next
  case (Inr ps)
  obtain planned s1 where ps: "ps = (planned, s1)" by (cases ps)
  show ?thesis
  proof (cases "run_loop env (s1\<lparr>workflow := (workflow s1)\<lparr>steps := planned\<rparr>\<rparr>)")
    case (Inl es)
    with Inr ps show ?thesis using loop_raises [of planned s1 "fst es" "snd es"]
      by (simp add: run_workflow_def)
  next
    case s3: (Inr s3)
    obtain s4 where s4: "final_output_phase env s3 = Inr s4"
      by (rule final_output_phase_cases [of env s3]) blast+
    let ?s5 = "s4\<lparr>workflow := (workflow s4)\<lparr>state := COMPLETED\<rparr>\<rparr>"
    from Inr ps s3 s4 have r: "run_workflow env s = notify env ''complete'' ?s5"
      by (simp add: run_workflow_def)
    have n: "stream_callback env = None \<longrightarrow> run_workflow env s = Inr ?s5"
      by (simp add: r notify_def)
    have "\<exists>x. outcome_state (notify env ''complete'' ?s5) = ?s5\<lparr>events := x\<rparr>"
    proof (cases "notify env ''complete'' ?s5")
      case (Inl es)
      obtain e s' where es: "es = (e, s')" by (cases es)
      from notify_Inl [OF Inl [unfolded es]] Inl es show ?thesis by auto
    next
      case (Inr s')
      from notify_Inr [OF Inr] Inr show ?thesis by auto
    qed
    then obtain x where
      "outcome_state (run_workflow env s) =
         s4\<lparr>workflow := (workflow s4)\<lparr>state := COMPLETED\<rparr>, events := x\<rparr>"
      using r by auto
    with Inr ps s3 s4 n show ?thesis using finished [of planned s1 s3 s4 x] by simp
  qed
qed

subsection \<open>Positions are kept\<close>

lemma execute_step_ident:
  assumes "i < length (steps (workflow s))" and "execute_step env i s = Inr s'"
  shows "map step_ident (steps (workflow s')) = map step_ident (steps (workflow s))"
    and "map step_id (steps (workflow s')) = map step_id (steps (workflow s))"
  using assms
  by (auto simp: execute_step_Inr map_update step_ident_def list_update_same_conv)

lemma numbered_from_cong:
  "map step_id xs = map step_id ys \<Longrightarrow> numbered_from n xs = numbered_from n ys"
  by (metis length_map numbered_from_def)

lemma positions_kept_step:
  assumes "positions_kept planned s" and "i < length (steps (workflow s))"
    and "execute_step env i s = Inr s'"
  shows "positions_kept planned s'"
  using assms execute_step_ident [OF assms(2,3)] numbered_from_cong [of "steps (workflow s')" "steps (workflow s)" 1]
  by (simp add: positions_kept_def)

lemma positions_kept_extend:
  assumes "positions_kept planned s" and "add_revision_steps env (workflow s) = Inr new_steps"
  shows "positions_kept planned (extend_steps new_steps s)"
proof -
  from add_revision_steps_numbered(1) [OF assms(2)]
  have "numbered_from (1 + int (length (steps (workflow s)))) new_steps"
    by (simp add: add.commute)
  with assms(1) show ?thesis
    by (auto simp: positions_kept_def extend_steps_def intro: numbered_from_append prefix_prefix)
qed

lemma positions_kept_loop:
  assumes "positions_kept planned s"
  shows "positions_kept planned (outcome_state (run_loop env s))"
proof (rule run_loop_inv [where P = "positions_kept planned"])
  show "positions_kept planned s" by (rule assms)
  show "\<And>s. positions_kept planned s \<Longrightarrow> iteration_count (workflow s) < max_iterations (workflow s) \<Longrightarrow>
          positions_kept planned (next_iteration s)"
    by (simp add: positions_kept_def)
  show "\<And>s i s'. positions_kept planned s \<Longrightarrow> i < length (steps (workflow s)) \<Longrightarrow>
          status (steps (workflow s) ! i) = ''pending'' \<Longrightarrow> execute_step env i s = Inr s' \<Longrightarrow>
          positions_kept planned s'"
    by (rule positions_kept_step)
  show "\<And>s new_steps. positions_kept planned s \<Longrightarrow>
          check_if_revision_needed (workflow s) = Inr True \<Longrightarrow>
          add_revision_steps env (workflow s) = Inr new_steps \<Longrightarrow>
          positions_kept planned (extend_steps new_steps s)"
    by (rule positions_kept_extend)
  show "\<And>s x. positions_kept planned s \<Longrightarrow> positions_kept planned (s\<lparr>events := x\<rparr>)"
    by (simp add: positions_kept_def)
qed

lemma positions_kept_final:
  assumes "positions_kept planned s" and "final_output_phase env s = Inr s'"
  shows "positions_kept planned s'"
proof (rule final_output_phase_cases [of env s])
  fix out
  assume "final_output_phase env s = Inr (s\<lparr>workflow := (workflow s)\<lparr>final_output := Some out\<rparr>\<rparr>)"
  with assms show ?thesis by (auto simp: positions_kept_def)
next
  fix s2 out
  let ?s1 = "s\<lparr>workflow := (workflow s)\<lparr>steps := steps (workflow s) @
              [forced_output_step (length (steps (workflow s)))]\<rparr>\<rparr>"
  assume ex: "execute_step env (length (steps (workflow s))) ?s1 = Inr s2"
    and fin: "final_output_phase env s = Inr (s2\<lparr>workflow := (workflow s2)\<lparr>final_output := Some out\<rparr>\<rparr>)"
  have "numbered_from (1 + int (length (steps (workflow s)))) [forced_output_step (length (steps (workflow s)))]"
    by (simp add: numbered_from_def forced_output_step_def new_step_def)
  with assms(1) have "positions_kept planned ?s1"
    by (auto simp: positions_kept_def intro: numbered_from_append prefix_prefix)
  from positions_kept_step [OF this _ ex] have "positions_kept planned s2" by simp
  with fin assms(2) show ?thesis by (auto simp: positions_kept_def)
qed

lemma steps_kept_loop:
  assumes "prefix (map step_ident xs) (map step_ident (steps (workflow s)))"
  shows "prefix (map step_ident xs)
           (map step_ident (steps (workflow (outcome_state (run_loop env s)))))"
proof (rule run_loop_inv
    [where P = "\<lambda>s. prefix (map step_ident xs) (map step_ident (steps (workflow s)))"])
  show "prefix (map step_ident xs) (map step_ident (steps (workflow s)))" by (rule assms)
  show "\<And>s. prefix (map step_ident xs) (map step_ident (steps (workflow s))) \<Longrightarrow>
          iteration_count (workflow s) < max_iterations (workflow s) \<Longrightarrow>
          prefix (map step_ident xs) (map step_ident (steps (workflow (next_iteration s))))"
    by simp
  show "\<And>s i s'. prefix (map step_ident xs) (map step_ident (steps (workflow s))) \<Longrightarrow>
          i < length (steps (workflow s)) \<Longrightarrow>
          status (steps (workflow s) ! i) = ''pending'' \<Longrightarrow> execute_step env i s = Inr s' \<Longrightarrow>
          prefix (map step_ident xs) (map step_ident (steps (workflow s')))"
    by (simp add: execute_step_ident)
  show "\<And>s new_steps. prefix (map step_ident xs) (map step_ident (steps (workflow s))) \<Longrightarrow>
          check_if_revision_needed (workflow s) = Inr True \<Longrightarrow>
          add_revision_steps env (workflow s) = Inr new_steps \<Longrightarrow>
          prefix (map step_ident xs) (map step_ident (steps (workflow (extend_steps new_steps s))))"
    by (simp add: extend_steps_def)
  show "\<And>s x. prefix (map step_ident xs) (map step_ident (steps (workflow s))) \<Longrightarrow>
          prefix (map step_ident xs) (map step_ident (steps (workflow (s\<lparr>events := x\<rparr>))))"
    by simp
qed

lemma steps_kept_final:
  "prefix (map step_ident (steps (workflow s)))
     (map step_ident (steps (workflow (outcome_state (final_output_phase env s)))))"
proof (rule final_output_phase_cases [of env s])
  fix out
  assume "final_output_phase env s = Inr (s\<lparr>workflow := (workflow s)\<lparr>final_output := Some out\<rparr>\<rparr>)"
  then show ?thesis by simp
next
  fix s2 out
  let ?s1 = "s\<lparr>workflow := (workflow s)\<lparr>steps := steps (workflow s) @
              [forced_output_step (length (steps (workflow s)))]\<rparr>\<rparr>"
  assume ex: "execute_step env (length (steps (workflow s))) ?s1 = Inr s2"
    and fin: "final_output_phase env s = Inr (s2\<lparr>workflow := (workflow s2)\<lparr>final_output := Some out\<rparr>\<rparr>)"
  from execute_step_ident(1) [OF _ ex]
  have "map step_ident (steps (workflow s2)) = map step_ident (steps (workflow ?s1))" by simp
  with fin show ?thesis by simp
qed

subsection \<open>The counter and its log\<close>

lemma count_inv_next:
  assumes "count_inv c0 log0 cap s" and "iteration_count (workflow s) < max_iterations (workflow s)"
  shows "count_inv c0 log0 cap (next_iteration s)"
proof -
  from assms(1) obtain n where
    n: "max_iterations (workflow s) = cap" "count_log s = log0 @ map (\<lambda>i. c0 + 1 + int i) [0..<n]"
       "iteration_count (workflow s) = c0 + int n"
    by (auto simp: count_inv_def)
  with assms(2) show ?thesis
    unfolding count_inv_def by (intro conjI exI [of _ "Suc n"]) (simp_all add: next_iteration_def)
qed

lemma count_inv_cong:
  "count_inv c0 log0 cap s \<Longrightarrow> max_iterations (workflow s') = max_iterations (workflow s) \<Longrightarrow>
   iteration_count (workflow s') = iteration_count (workflow s) \<Longrightarrow> count_log s' = count_log s \<Longrightarrow>
   count_inv c0 log0 cap s'"
  by (simp add: count_inv_def)

lemma count_inv_loop:
  assumes "count_inv c0 log0 cap s"
  shows "count_inv c0 log0 cap (outcome_state (run_loop env s))"
proof (rule run_loop_inv [where P = "count_inv c0 log0 cap"])
  show "count_inv c0 log0 cap s" by (rule assms)
  show "\<And>s. count_inv c0 log0 cap s \<Longrightarrow> iteration_count (workflow s) < max_iterations (workflow s) \<Longrightarrow>
          count_inv c0 log0 cap (next_iteration s)"
    by (rule count_inv_next)
  show "\<And>s i s'. count_inv c0 log0 cap s \<Longrightarrow> i < length (steps (workflow s)) \<Longrightarrow>
          status (steps (workflow s) ! i) = ''pending'' \<Longrightarrow> execute_step env i s = Inr s' \<Longrightarrow>
          count_inv c0 log0 cap s'"
    using execute_step_counters by (blast intro: count_inv_cong)
  show "\<And>s new_steps. count_inv c0 log0 cap s \<Longrightarrow>
          check_if_revision_needed (workflow s) = Inr True \<Longrightarrow>
          add_revision_steps env (workflow s) = Inr new_steps \<Longrightarrow>
          count_inv c0 log0 cap (extend_steps new_steps s)"
    by (simp add: count_inv_def extend_steps_def)
  show "\<And>s x. count_inv c0 log0 cap s \<Longrightarrow> count_inv c0 log0 cap (s\<lparr>events := x\<rparr>)"
    by (simp add: count_inv_def)
qed

lemma count_inv_final:
  assumes "count_inv c0 log0 cap s" and "final_output_phase env s = Inr s'"
  shows "count_inv c0 log0 cap s'"
proof (rule final_output_phase_cases [of env s])
  fix out
  assume "final_output_phase env s = Inr (s\<lparr>workflow := (workflow s)\<lparr>final_output := Some out\<rparr>\<rparr>)"
  with assms show ?thesis by (auto simp: count_inv_def)
next
  fix s2 out
  let ?s1 = "s\<lparr>workflow := (workflow s)\<lparr>steps := steps (workflow s) @
              [forced_output_step (length (steps (workflow s)))]\<rparr>\<rparr>"
  assume ex: "execute_step env (length (steps (workflow s))) ?s1 = Inr s2"
    and fin: "final_output_phase env s = Inr (s2\<lparr>workflow := (workflow s2)\<lparr>final_output := Some out\<rparr>\<rparr>)"
  from assms(1) have "count_inv c0 log0 cap ?s1" by (simp add: count_inv_def)
  with execute_step_counters [OF ex] have "count_inv c0 log0 cap s2"
    by (auto intro: count_inv_cong)
  with fin assms(2) show ?thesis by (auto simp: count_inv_def)
qed

lemma count_inv_run:
  "count_inv (iteration_count (workflow s)) (count_log s) (max_iterations (workflow s))
     (outcome_state (run_workflow env s))"
proof -
  let ?P = "count_inv (iteration_count (workflow s)) (count_log s) (max_iterations (workflow s))"
  have init: "?P s'" if "workflow s' = (workflow s)\<lparr>state := IN_PROGRESS\<rparr>"
    "count_log s' = count_log s" for s'
    using that unfolding count_inv_def by (intro conjI exI [of _ 0]) simp_all
  show ?thesis
  proof (rule run_workflow_cases [of env s])
    fix e s1
    assume p: "planning_phase env s = Inl (e, s1)"
      and r: "run_workflow env s = Inl (e, s1)"
    from planning_phase_Inl [OF p] r init show ?thesis by simp
  next
    fix planned s1 e s2
    assume p: "planning_phase env s = Inr (planned, s1)"
      and l: "run_loop env (s1\<lparr>workflow := (workflow s1)\<lparr>steps := planned\<rparr>\<rparr>) = Inl (e, s2)"
      and r: "run_workflow env s = Inl (e, s2)"
    from planning_phase_Inr(3,5) [OF p] init [of s1]
    have "?P (s1\<lparr>workflow := (workflow s1)\<lparr>steps := planned\<rparr>\<rparr>)"
      by (simp add: count_inv_def)
    from count_inv_loop [OF this, of env] l r show ?thesis by simp
  next
    fix planned s1 s3 s4 x
    assume p: "planning_phase env s = Inr (planned, s1)"
      and l: "run_loop env (s1\<lparr>workflow := (workflow s1)\<lparr>steps := planned\<rparr>\<rparr>) = Inr s3"
      and f: "final_output_phase env s3 = Inr s4"
      and r: "outcome_state (run_workflow env s) =
                s4\<lparr>workflow := (workflow s4)\<lparr>state := COMPLETED\<rparr>, events := x\<rparr>"
    from planning_phase_Inr(3,5) [OF p] init [of s1]
    have "?P (s1\<lparr>workflow := (workflow s1)\<lparr>steps := planned\<rparr>\<rparr>)"
      by (simp add: count_inv_def)
    from count_inv_loop [OF this, of env] l have "?P s3" by simp
    from count_inv_final [OF this f] r show ?thesis by (simp add: count_inv_def)
  qed
qed

subsection \<open>Items with unknown agent names\<close>





subsection \<open>The gathered context\<close>

lemma role_value_inj: "(role_value a = role_value b) = (a = b)"
  by (cases a; cases b) simp_all

lemma role_value_not_request: "role_value a \<noteq> ''user_request''"
  by (cases a) simp_all

lemma fold_context_lookup:
  "map_of (fold (\<lambda>prev_step context.
                if step_id prev_step < n \<and> output_data prev_step \<noteq> []
                then AList.update (role_value (agent prev_step))
                       (JObj (output_data prev_step)) context
                else context) xs acc) key =
   (case filter (\<lambda>p. step_id p < n \<and> output_data p \<noteq> [] \<and> role_value (agent p) = key) xs of
      [] \<Rightarrow> map_of acc key
    | ps \<Rightarrow> Some (JObj (output_data (last ps))))"
proof (induction xs arbitrary: acc)
  case Nil
  then show ?case by simp
next
  case (Cons x xs)
  let ?Q = "\<lambda>p. step_id p < n \<and> output_data p \<noteq> [] \<and> role_value (agent p) = key"
  show ?case
  proof (cases "step_id x < n \<and> output_data x \<noteq> []")
    case False
    then show ?thesis by (auto simp: Cons.IH)
  next
    case True
    show ?thesis
    proof (cases "role_value (agent x) = key")
      case k: True
      with True have "filter ?Q (x # xs) = x # filter ?Q xs" by simp
      with True k show ?thesis
        by (cases "filter ?Q xs") (simp_all add: Cons.IH update_conv')
    next
      case k: False
      with True have "filter ?Q (x # xs) = filter ?Q xs" by simp
      with True k show ?thesis
        by (cases "filter ?Q xs") (simp_all add: Cons.IH update_conv')
    qed
  qed
qed

lemma gather_context_lookup:
  "map_of (gather_context w step) key =
     (if key = ''user_request'' then Some (JStr (user_request w))
      else case filter (\<lambda>p. step_id p < step_id step \<and> output_data p \<noteq> [] \<and>
                             role_value (agent p) = key) (steps w) of
             [] \<Rightarrow> None
           | ps \<Rightarrow> Some (JObj (output_data (last ps))))"
  by (simp add: gather_context_def update_conv' fold_context_lookup split: list.split)

lemma gather_context_other_keys:
  assumes "key \<noteq> ''user_request''" and "\<forall>role. key \<noteq> role_value role"
  shows "map_of (gather_context w step) key = None"
proof -
  from assms(2) have "filter (\<lambda>p. step_id p < step_id step \<and> output_data p \<noteq> [] \<and>
                             role_value (agent p) = key) (steps w) = []"
    by (auto simp: filter_empty_conv)
  with assms(1) show ?thesis by (simp add: gather_context_lookup)
qed

lemma execute_nonempty: "execute env k a i c q \<noteq> []"
  by (simp add: execute_def split: reply.split loads_result.split)

lemma step_result_nonempty: "step_result env s i \<noteq> []"
  by (simp add: step_result_def Let_def execute_nonempty)

lemma outputs_agree_step:
  assumes "outputs_agree s" and "i < length (steps (workflow s))"
    and "status (steps (workflow s) ! i) = ''pending''" and "execute_step env i s = Inr s'"
  shows "outputs_agree s'"
proof -
  from assms(2) have "steps (workflow s) ! i \<in> set (steps (workflow s))" by simp
  with assms(1,3) have empty: "output_data (steps (workflow s) ! i) = []"
    unfolding outputs_agree_def by fastforce
  let ?y = "(if truthy (dict_get (step_result env s i) ''success'' JNull)
            then (steps (workflow s) ! i)\<lparr>status := ''completed'', output_data := step_result env s i\<rparr>
            else (steps (workflow s) ! i)\<lparr>status := ''failed'',
                   error := Some (dict_get (step_result env s i) ''error'' (JStr ''Unknown error''))\<rparr>)"
  from assms(2,4) have st: "steps (workflow s') = (steps (workflow s))[i := ?y]"
    by (auto simp: execute_step_Inr)
  have y: "(output_data ?y \<noteq> []) = (status ?y = ''completed'')"
    using empty by (simp add: step_result_nonempty)
  show ?thesis
    unfolding outputs_agree_def st
  proof
    fix x assume "x \<in> set ((steps (workflow s))[i := ?y])"
    then have "x = ?y \<or> x \<in> set (steps (workflow s))"
      using set_update_subset_insert by fastforce
    with y assms(1) show "(output_data x \<noteq> []) = (status x = ''completed'')"
      by (auto simp: outputs_agree_def)
  qed
qed

lemma outputs_agree_loop:
  assumes "outputs_agree s"
  shows "outputs_agree (outcome_state (run_loop env s))"
proof (rule run_loop_inv [where P = outputs_agree])
  show "outputs_agree s" by (rule assms)
  show "\<And>s. outputs_agree s \<Longrightarrow> iteration_count (workflow s) < max_iterations (workflow s) \<Longrightarrow>
          outputs_agree (next_iteration s)"
    by (simp add: outputs_agree_def)
  show "\<And>s i s'. outputs_agree s \<Longrightarrow> i < length (steps (workflow s)) \<Longrightarrow>
          status (steps (workflow s) ! i) = ''pending'' \<Longrightarrow> execute_step env i s = Inr s' \<Longrightarrow>
          outputs_agree s'"
    by (rule outputs_agree_step)
  show "\<And>s new_steps. outputs_agree s \<Longrightarrow>
          check_if_revision_needed (workflow s) = Inr True \<Longrightarrow>
          add_revision_steps env (workflow s) = Inr new_steps \<Longrightarrow>
          outputs_agree (extend_steps new_steps s)"
    using add_revision_steps_numbered(2)
    by (fastforce simp: outputs_agree_def extend_steps_def)
  show "\<And>s x. outputs_agree s \<Longrightarrow> outputs_agree (s\<lparr>events := x\<rparr>)"
    by (simp add: outputs_agree_def)
qed

lemma outputs_agree_final:
  assumes "outputs_agree s" and "final_output_phase env s = Inr s'"
  shows "outputs_agree s'"
proof (rule final_output_phase_cases [of env s])
  fix out
  assume "final_output_phase env s = Inr (s\<lparr>workflow := (workflow s)\<lparr>final_output := Some out\<rparr>\<rparr>)"
  with assms show ?thesis by (auto simp: outputs_agree_def)
next
  fix s2 out
  let ?s1 = "s\<lparr>workflow := (workflow s)\<lparr>steps := steps (workflow s) @
              [forced_output_step (length (steps (workflow s)))]\<rparr>\<rparr>"
  assume ex: "execute_step env (length (steps (workflow s))) ?s1 = Inr s2"
    and fin: "final_output_phase env s = Inr (s2\<lparr>workflow := (workflow s2)\<lparr>final_output := Some out\<rparr>\<rparr>)"
  from assms(1) have "outputs_agree ?s1"
    by (auto simp: outputs_agree_def forced_output_step_def new_step_def)
  from outputs_agree_step [OF this _ _ ex] have "outputs_agree s2"
    by (simp add: nth_append forced_output_step_def new_step_def)
  with fin assms(2) show ?thesis by (auto simp: outputs_agree_def)
qed

lemma outputs_agree_run:
  assumes "planning_phase env s = Inr (planned, s1)"
  shows "outputs_agree (outcome_state (run_workflow env s))"
proof -
  from planning_phase_Inr(2) [OF assms]
  have init: "outputs_agree (s1\<lparr>workflow := (workflow s1)\<lparr>steps := planned\<rparr>\<rparr>)"
    by (auto simp: outputs_agree_def)
  show ?thesis
  proof (rule run_workflow_cases [of env s])
    fix e s1'
    assume "planning_phase env s = Inl (e, s1')"
    with assms show ?thesis by simp
  next
    fix planned' s1' e s2
    assume "planning_phase env s = Inr (planned', s1')"
      and l: "run_loop env (s1'\<lparr>workflow := (workflow s1')\<lparr>steps := planned'\<rparr>\<rparr>) = Inl (e, s2)"
      and r: "run_workflow env s = Inl (e, s2)"
    with assms have "planned' = planned" "s1' = s1" by simp_all
    with outputs_agree_loop [OF init, of env] l r show ?thesis by simp
  next
    fix planned' s1' s3 s4 x
    assume "planning_phase env s = Inr (planned', s1')"
      and l: "run_loop env (s1'\<lparr>workflow := (workflow s1')\<lparr>steps := planned'\<rparr>\<rparr>) = Inr s3"
      and f: "final_output_phase env s3 = Inr s4"
      and r: "outcome_state (run_workflow env s) =
                s4\<lparr>workflow := (workflow s4)\<lparr>state := COMPLETED\<rparr>, events := x\<rparr>"
    with assms have "planned' = planned" "s1' = s1" by simp_all
    with outputs_agree_loop [OF init, of env] l have "outputs_agree s3" by simp
    from outputs_agree_final [OF this f] r show ?thesis by (simp add: outputs_agree_def)
  qed
qed

subsection \<open>Invariants of a whole run; the log\<close>

lemma final_output_phase_inv:
  assumes "P s" and "final_output_phase env s = Inr s'"
    and "\<And>s v. P s \<Longrightarrow> P (s\<lparr>workflow := (workflow s)\<lparr>final_output := v\<rparr>\<rparr>)"
    and "\<And>s. P s \<Longrightarrow> P (s\<lparr>workflow := (workflow s)\<lparr>steps := steps (workflow s) @
              [forced_output_step (length (steps (workflow s)))]\<rparr>\<rparr>)"
    and "\<And>s i s'. P s \<Longrightarrow> i < length (steps (workflow s)) \<Longrightarrow>
            status (steps (workflow s) ! i) = ''pending'' \<Longrightarrow>
            execute_step env i s = Inr s' \<Longrightarrow> P s'"
  shows "P s'"
proof (rule final_output_phase_cases [of env s])
  fix out
  assume "final_output_phase env s = Inr (s\<lparr>workflow := (workflow s)\<lparr>final_output := Some out\<rparr>\<rparr>)"
  with assms(1,2,3) show ?thesis by auto
next
  fix s2 out
  let ?s1 = "s\<lparr>workflow := (workflow s)\<lparr>steps := steps (workflow s) @
              [forced_output_step (length (steps (workflow s)))]\<rparr>\<rparr>"
  assume ex: "execute_step env (length (steps (workflow s))) ?s1 = Inr s2"
    and fin: "final_output_phase env s = Inr (s2\<lparr>workflow := (workflow s2)\<lparr>final_output := Some out\<rparr>\<rparr>)"
  from assms(4) [OF assms(1)] have "P ?s1" .
  from assms(5) [OF this _ _ ex] have "P s2"
    by (simp add: nth_append forced_output_step_def new_step_def)
  from assms(3) [OF this] fin assms(2) show ?thesis by auto
qed

lemma run_workflow_inv:
  assumes plan: "planning_phase env s = Inr (planned, s1)"
    and init: "P (s1\<lparr>workflow := (workflow s1)\<lparr>steps := planned\<rparr>\<rparr>)"
    and nxt: "\<And>s. P s \<Longrightarrow> iteration_count (workflow s) < max_iterations (workflow s) \<Longrightarrow>
            P (next_iteration s)"
    and step: "\<And>s i s'. P s \<Longrightarrow> i < length (steps (workflow s)) \<Longrightarrow>
            status (steps (workflow s) ! i) = ''pending'' \<Longrightarrow>
            execute_step env i s = Inr s' \<Longrightarrow> P s'"
    and ext: "\<And>s new_steps. P s \<Longrightarrow> check_if_revision_needed (workflow s) = Inr True \<Longrightarrow>
            add_revision_steps env (workflow s) = Inr new_steps \<Longrightarrow>
            P (extend_steps new_steps s)"
    and out: "\<And>s v. P s \<Longrightarrow> P (s\<lparr>workflow := (workflow s)\<lparr>final_output := v\<rparr>\<rparr>)"
    and app: "\<And>s. P s \<Longrightarrow> P (s\<lparr>workflow := (workflow s)\<lparr>steps := steps (workflow s) @
              [forced_output_step (length (steps (workflow s)))]\<rparr>\<rparr>)"
    and fin: "\<And>s. P s \<Longrightarrow> P (s\<lparr>workflow := (workflow s)\<lparr>state := COMPLETED\<rparr>\<rparr>)"
    and ev: "\<And>s x. P s \<Longrightarrow> P (s\<lparr>events := x\<rparr>)"
  shows "P (outcome_state (run_workflow env s))"
proof -
  have loop: "P (outcome_state (run_loop env (s1\<lparr>workflow := (workflow s1)\<lparr>steps := planned\<rparr>\<rparr>)))"
    by (rule run_loop_inv [where P = P]) (use init nxt step ext ev in blast)+
  show ?thesis
  proof (rule run_workflow_cases [of env s])
    fix e s1'
    assume "planning_phase env s = Inl (e, s1')"
    with plan show ?thesis by simp
  next
    fix planned' s1' e s2
    assume "planning_phase env s = Inr (planned', s1')"
      and l: "run_loop env (s1'\<lparr>workflow := (workflow s1')\<lparr>steps := planned'\<rparr>\<rparr>) = Inl (e, s2)"
      and r: "run_workflow env s = Inl (e, s2)"
    with plan have "planned' = planned" "s1' = s1" by simp_all
    with loop l r show ?thesis by simp
  next
    fix planned' s1' s3 s4 x
    assume "planning_phase env s = Inr (planned', s1')"
      and l: "run_loop env (s1'\<lparr>workflow := (workflow s1')\<lparr>steps := planned'\<rparr>\<rparr>) = Inr s3"
      and f: "final_output_phase env s3 = Inr s4"
      and r: "outcome_state (run_workflow env s) =
                s4\<lparr>workflow := (workflow s4)\<lparr>state := COMPLETED\<rparr>, events := x\<rparr>"
    with plan have "planned' = planned" "s1' = s1" by simp_all
    with loop l have "P s3" by simp
    have "P s4"
      by (rule final_output_phase_inv [where P = P, OF \<open>P s3\<close> f]) (use out app step in blast)+
    from ev [OF fin [OF this], of x] r show ?thesis by simp
  qed
qed

lemma mset_filter_update:
  assumes "i < length xs" and "\<not> Q (xs ! i)" and "Q y"
  shows "mset (map f (filter Q (xs[i := y]))) = add_mset (f y) (mset (map f (filter Q xs)))"
proof -
  have "xs = take i xs @ xs ! i # drop (Suc i) xs"
    using assms(1) by (simp add: id_take_nth_drop)
  then have a: "filter Q xs = filter Q (take i xs) @ filter Q (drop (Suc i) xs)"
    using assms(2) by (metis filter.simps(2) filter_append)
  have "xs[i := y] = take i xs @ y # drop (Suc i) xs"
    using assms(1) by (simp add: upd_conv_take_nth_drop)
  then have b: "filter Q (xs[i := y]) = filter Q (take i xs) @ y # filter Q (drop (Suc i) xs)"
    using assms(3) by simp
  show ?thesis unfolding a b by simp
qed

lemma logged_once_step:
  assumes "logged_once h0 s" and "i < length (steps (workflow s))"
    and "status (steps (workflow s) ! i) = ''pending''" and "execute_step env i s = Inr s'"
  shows "logged_once h0 s'"
proof -
  let ?y = "(if truthy (dict_get (step_result env s i) ''success'' JNull)
            then (steps (workflow s) ! i)\<lparr>status := ''completed'', output_data := step_result env s i\<rparr>
            else (steps (workflow s) ! i)\<lparr>status := ''failed'',
                   error := Some (dict_get (step_result env s i) ''error'' (JStr ''Unknown error''))\<rparr>)"
  let ?e = "[(''step_id'', JInt (step_id (steps (workflow s) ! i))),
            (''agent'', JStr (role_value (agent (steps (workflow s) ! i)))),
            (''instruction'', instruction (steps (workflow s) ! i)),
            (''result'', JObj (step_result env s i))]"
  from assms(2,4) have st: "steps (workflow s') = (steps (workflow s))[i := ?y]"
    and h: "conversation_history (workflow s') = conversation_history (workflow s) @ [?e]"
    by (auto simp: execute_step_Inr)
  have y: "status ?y \<noteq> ''pending''" "step_id ?y = step_id (steps (workflow s) ! i)" by simp_all
  from assms(1) have le: "h0 \<le> length (conversation_history (workflow s))"
    by (simp add: logged_once_def)
  have "mset (map (\<lambda>st. Some (JInt (step_id st)))
             (filter (\<lambda>st. status st \<noteq> ''pending'') ((steps (workflow s))[i := ?y]))) =
        add_mset (Some (JInt (step_id ?y)))
          (mset (map (\<lambda>st. Some (JInt (step_id st)))
             (filter (\<lambda>st. status st \<noteq> ''pending'') (steps (workflow s)))))"
    by (rule mset_filter_update) (use assms(2,3) y(1) in simp_all)
  with assms(1) le y(2) show ?thesis
    unfolding logged_once_def st h by simp
qed

lemma logged_once_run:
  assumes "planning_phase env s = Inr (planned, s1)"
  shows "logged_once (length (conversation_history (workflow s))) (outcome_state (run_workflow env s))"
proof (rule run_workflow_inv [where P = "logged_once (length (conversation_history (workflow s)))", OF assms])
  from planning_phase_Inr(2,3) [OF assms]
  have "filter (\<lambda>st. status st \<noteq> ''pending'') planned = []" "workflow s1 = (workflow s)\<lparr>state := IN_PROGRESS\<rparr>"
    by (auto simp: filter_empty_conv)
  then show "logged_once (length (conversation_history (workflow s)))
          (s1\<lparr>workflow := (workflow s1)\<lparr>steps := planned\<rparr>\<rparr>)"
    by (simp add: logged_once_def)
next
  fix s' new_steps
  assume l: "logged_once (length (conversation_history (workflow s))) s'"
    and "add_revision_steps env (workflow s') = Inr new_steps"
  from add_revision_steps_numbered(2) [OF this(2)]
  have "filter (\<lambda>st. status st \<noteq> ''pending'') new_steps = []"
    by (auto simp: filter_empty_conv)
  with l show "logged_once (length (conversation_history (workflow s))) (extend_steps new_steps s')"
    by (simp add: logged_once_def extend_steps_def)
next
  fix s' i s''
  assume "logged_once (length (conversation_history (workflow s))) s'"
    "i < length (steps (workflow s'))" "status (steps (workflow s') ! i) = ''pending''"
    "execute_step env i s' = Inr s''"
  then show "logged_once (length (conversation_history (workflow s))) s''"
    by (rule logged_once_step)
qed (simp_all add: logged_once_def next_iteration_def forced_output_step_def new_step_def)

lemma numbered_run:
  assumes "planning_phase env s = Inr (planned, s1)"
  shows "numbered_from 1 (steps (workflow (outcome_state (run_workflow env s))))"
proof (rule run_workflow_inv [where P = "\<lambda>s. numbered_from 1 (steps (workflow s))", OF assms])
  show "numbered_from 1 (steps (workflow (s1\<lparr>workflow := (workflow s1)\<lparr>steps := planned\<rparr>\<rparr>)))"
    using planning_phase_Inr(1) [OF assms] by simp
next
  fix s' s'' :: run_state and i
  assume "numbered_from 1 (steps (workflow s'))" "i < length (steps (workflow s'))"
    "execute_step env i s' = Inr s''"
  then show "numbered_from 1 (steps (workflow s''))"
    using execute_step_ident(2) numbered_from_cong by blast
next
  fix s' :: run_state and new_steps
  assume n: "numbered_from 1 (steps (workflow s'))"
    and "add_revision_steps env (workflow s') = Inr new_steps"
  from add_revision_steps_numbered(1) [OF this(2)]
  have "numbered_from (1 + int (length (steps (workflow s')))) new_steps"
    by (simp add: add.commute)
  with n show "numbered_from 1 (steps (workflow (extend_steps new_steps s')))"
    by (simp add: extend_steps_def numbered_from_append)
next
  fix s' :: run_state
  assume n: "numbered_from 1 (steps (workflow s'))"
  have "numbered_from (1 + int (length (steps (workflow s'))))
          [forced_output_step (length (steps (workflow s')))]"
    by (simp add: numbered_from_def forced_output_step_def new_step_def)
  with n show "numbered_from 1 (steps (workflow (s'\<lparr>workflow := (workflow s')\<lparr>steps := steps (workflow s') @
              [forced_output_step (length (steps (workflow s')))]\<rparr>\<rparr>)))"
    by (simp add: numbered_from_append)
qed simp_all

lemma execute_step_not_pending:
  assumes "i < length (steps (workflow s))" and "execute_step env i s = Inr s'"
  shows "status (steps (workflow s') ! i) \<noteq> ''pending''"
  using assms by (auto simp: execute_step_Inr split: if_splits)

lemma run_pending_untouched:
  assumes "\<forall>i \<in> set is. i < length (steps (workflow s))"
  shows "length (steps (workflow (outcome_state (run_pending env is s)))) =
           length (steps (workflow s)) \<and>
         (\<forall>j<length (steps (workflow s)).
            status (steps (workflow s) ! j) \<noteq> ''pending'' \<longrightarrow>
            steps (workflow (outcome_state (run_pending env is s))) ! j = steps (workflow s) ! j)"
proof -
  let ?P = "\<lambda>s'. length (steps (workflow s')) = length (steps (workflow s)) \<and>
              (\<forall>j<length (steps (workflow s)).
                 status (steps (workflow s) ! j) \<noteq> ''pending'' \<longrightarrow>
                 steps (workflow s') ! j = steps (workflow s) ! j)"
  have "?P (outcome_state (run_pending env is s)) \<and>
        length (steps (workflow (outcome_state (run_pending env is s)))) =
          length (steps (workflow s))"
  proof (rule run_pending_inv [where P = ?P])
    show "?P s" by simp
    show "\<forall>i \<in> set is. i < length (steps (workflow s))" by (rule assms)
    show "\<And>s' x. ?P s' \<Longrightarrow> ?P (s'\<lparr>events := x\<rparr>)" by simp
    show "\<And>s' i s''. ?P s' \<Longrightarrow> i < length (steps (workflow s')) \<Longrightarrow>
            status (steps (workflow s') ! i) = ''pending'' \<Longrightarrow>
            execute_step env i s' = Inr s'' \<Longrightarrow> ?P s''"
    proof -
      fix s' i s''
      assume P: "?P s'" and i: "i < length (steps (workflow s'))"
        and pend: "status (steps (workflow s') ! i) = ''pending''"
        and ex: "execute_step env i s' = Inr s''"
      from i ex obtain y where st: "steps (workflow s'') = (steps (workflow s'))[i := y]"
        by (auto simp: execute_step_Inr)
      show "?P s''"
      proof (intro conjI allI impI)
        show "length (steps (workflow s'')) = length (steps (workflow s))" using st P by simp
      next
        fix j
        assume j: "j < length (steps (workflow s))"
          and np: "status (steps (workflow s) ! j) \<noteq> ''pending''"
        with P have eq: "steps (workflow s') ! j = steps (workflow s) ! j" by simp
        with np pend have "j \<noteq> i" by auto
        with st eq show "steps (workflow s'') ! j = steps (workflow s) ! j" by simp
      qed
    qed
  qed
  then show ?thesis by simp
qed

lemma run_pending_none_left:
  assumes "run_pending env is s = Inr s'" and "\<forall>i \<in> set is. i < length (steps (workflow s))"
  shows "\<forall>j<length (steps (workflow s)).
           j \<in> set is \<or> status (steps (workflow s) ! j) \<noteq> ''pending'' \<longrightarrow>
           status (steps (workflow s') ! j) \<noteq> ''pending''"
  using assms
proof (induction "is" arbitrary: s)
  case Nil
  then show ?case by simp
next
  case (Cons i rest)
  show ?case
  proof (cases "status (steps (workflow s) ! i) = ''pending''")
    case False
    with Cons.prems have r: "run_pending env rest s = Inr s'"
      and b: "\<forall>i \<in> set rest. i < length (steps (workflow s))" by simp_all
    from Cons.IH [OF r b] False show ?thesis by auto
  next
    case True
    from Cons.prems have i: "i < length (steps (workflow s))" by simp
    show ?thesis
    proof (rule run_pending_step_cases [OF True i, of env rest])
      fix e x
      assume "run_pending env (i # rest) s = Inl (e, s\<lparr>events := x\<rparr>)"
      with Cons.prems(1) show ?thesis by simp
    next
      fix e x s2 y
      assume "run_pending env (i # rest) s = Inl (e, s2\<lparr>events := y\<rparr>)"
      with Cons.prems(1) show ?thesis by simp
    next
      fix x s2 y
      assume ex: "execute_step env i (s\<lparr>events := x\<rparr>) = Inr s2"
        and r: "run_pending env (i # rest) s = run_pending env rest (s2\<lparr>events := y\<rparr>)"
      from i ex obtain v where st: "steps (workflow s2) = (steps (workflow s))[i := v]"
        by (auto simp: execute_step_Inr)
      from execute_step_not_pending [OF _ ex] i
      have np: "status (steps (workflow s2) ! i) \<noteq> ''pending''" by simp
      from r Cons.prems(1) have r': "run_pending env rest (s2\<lparr>events := y\<rparr>) = Inr s'" by simp
      from st Cons.prems(2)
      have b: "\<forall>i \<in> set rest. i < length (steps (workflow (s2\<lparr>events := y\<rparr>)))" by simp
      note IH = Cons.IH [OF r' b]
      show ?thesis
      proof (intro allI impI)
        fix j
        assume j: "j < length (steps (workflow s))"
          and c: "j \<in> set (i # rest) \<or> status (steps (workflow s) ! j) \<noteq> ''pending''"
        have "j \<in> set rest \<or> status (steps (workflow (s2\<lparr>events := y\<rparr>)) ! j) \<noteq> ''pending''"
        proof (cases "j = i")
          case True
          with np show ?thesis by simp
        next
          case False
          with st j have "steps (workflow (s2\<lparr>events := y\<rparr>)) ! j = steps (workflow s) ! j"
            by simp
          with c False show ?thesis by auto
        qed
        moreover from j st have "j < length (steps (workflow (s2\<lparr>events := y\<rparr>)))" by simp
        ultimately show "status (steps (workflow s') ! j) \<noteq> ''pending''" using IH by blast
      qed
    qed
  qed
qed

lemma run_pending_nothing_pending:
  "\<forall>i \<in> set is. status (steps (workflow s) ! i) \<noteq> ''pending'' \<Longrightarrow> run_pending env is s = Inr s"
  by (induction "is") simp_all

lemma run_returns_executed:
  assumes "run_workflow env s = Inr s'"
  shows "\<exists>st \<in> set (steps (workflow s')). status st \<noteq> ''pending''"
proof (rule run_workflow_cases [of env s])
  fix e s1 assume "run_workflow env s = Inl (e, s1)"
  with assms show ?thesis by simp
next
  fix planned s1 e s2 assume "run_workflow env s = Inl (e, s2)"
  with assms show ?thesis by simp
next
  fix planned s1 s3 s4 x
  assume f: "final_output_phase env s3 = Inr s4"
    and r: "outcome_state (run_workflow env s) =
              s4\<lparr>workflow := (workflow s4)\<lparr>state := COMPLETED\<rparr>, events := x\<rparr>"
  have "\<exists>st \<in> set (steps (workflow s4)). status st \<noteq> ''pending''"
  proof (rule final_output_phase_cases [of env s3])
    fix out
    assume "final_output_phase env s3 = Inr (s3\<lparr>workflow := (workflow s3)\<lparr>final_output := Some out\<rparr>\<rparr>)"
      and "\<exists>st \<in> set (steps (workflow s3)). agent st = OUTPUT \<and> status st = ''completed''"
    with f show ?thesis by force
  next
    fix s2 out
    let ?n = "length (steps (workflow s3))"
    let ?s1 = "s3\<lparr>workflow := (workflow s3)\<lparr>steps := steps (workflow s3) @
              [forced_output_step ?n]\<rparr>\<rparr>"
    assume ex: "execute_step env ?n ?s1 = Inr s2"
      and fin: "final_output_phase env s3 = Inr (s2\<lparr>workflow := (workflow s2)\<lparr>final_output := Some out\<rparr>\<rparr>)"
    have n: "?n < length (steps (workflow ?s1))" by simp
    from execute_step_not_pending [OF n ex]
    have "status (steps (workflow s2) ! ?n) \<noteq> ''pending''" .
    moreover from execute_step_length [OF n ex] have "?n < length (steps (workflow s2))" by simp
    ultimately have "\<exists>st \<in> set (steps (workflow s2)). status st \<noteq> ''pending''"
      using nth_mem by blast
    with fin f show ?thesis by auto
  qed
  with r assms show ?thesis by auto
qed

section \<open>Properties\<close>

subsection \<open>The executor's result\<close>

text \<open>
  Claim C8, as amended. \<open>AgentExecutor.execute\<close> returns \<open>success: True\<close> with the raw
  response when the generation service replies with a text on which \<open>json.loads\<close> returns or
  raises \<open>JSONDecodeError\<close>: the \<open>parsed\<close> entry then holds the value \<open>json.loads\<close> returned
  (which is \<open>None\<close> for the JSON text \<open>null\<close>), and \<open>None\<close> after \<open>JSONDecodeError\<close>, which is not
  an error. It returns \<open>success: False\<close> with an \<open>error\<close> entry, and neither \<open>raw_response\<close>
  nor \<open>parsed\<close>, in every other case: when the call raises, when the reply has no text, and
  when \<open>json.loads\<close> raises another exception. The cases are exhaustive and exclude each
  other, so each result is returned exactly in its case.
\<close>

theorem execute_result:
  "(case llm env k (mk_request a i c q) of
      Content content \<Rightarrow>
        (case json_loads env content of
           Parsed parsed \<Rightarrow>
             map_of (execute env k a i c q) ''success'' = Some (JBool True) \<and>
             map_of (execute env k a i c q) ''raw_response'' = Some (JStr content) \<and>
             map_of (execute env k a i c q) ''parsed'' = Some parsed \<and>
             map_of (execute env k a i c q) ''error'' = None
         | JSONDecodeError \<Rightarrow>
             map_of (execute env k a i c q) ''success'' = Some (JBool True) \<and>
             map_of (execute env k a i c q) ''raw_response'' = Some (JStr content) \<and>
             map_of (execute env k a i c q) ''parsed'' = Some JNull \<and>
             map_of (execute env k a i c q) ''error'' = None
         | OtherException e \<Rightarrow>
             map_of (execute env k a i c q) ''success'' = Some (JBool False) \<and>
             map_of (execute env k a i c q) ''error'' = Some (JStr e) \<and>
             map_of (execute env k a i c q) ''raw_response'' = None \<and>
             map_of (execute env k a i c q) ''parsed'' = None)
    | NoContent \<Rightarrow>
        map_of (execute env k a i c q) ''success'' = Some (JBool False) \<and>
        map_of (execute env k a i c q) ''error'' =
          Some (JStr ''the JSON object must be str, bytes or bytearray, not NoneType'') \<and>
        map_of (execute env k a i c q) ''raw_response'' = None \<and>
        map_of (execute env k a i c q) ''parsed'' = None
    | Raises e \<Rightarrow>
        map_of (execute env k a i c q) ''success'' = Some (JBool False) \<and>
        map_of (execute env k a i c q) ''error'' = Some (JStr e) \<and>
        map_of (execute env k a i c q) ''raw_response'' = None \<and>
        map_of (execute env k a i c q) ''parsed'' = None) \<and>
   map_of (execute env k a i c q) ''agent'' = Some (JStr (role_value a))"
  by (simp add: execute_def split: reply.split loads_result.split)

text \<open>
  Claim C8 as stated fails in both directions. The service replies with an integer literal
  of 4301 digits, and with a reply without text: the call does not raise, and the result is
  \<open>success: False\<close> with an error and without the raw response. The service replies \<open>null\<close>:
  the reply parses as JSON, and the \<open>parsed\<close> entry is \<open>None\<close> as for a reply that does not.
\<close>

theorem reply_reported_as_failure:
  "llm limits_env 0 (mk_request RESEARCH (JStr ''dig'') None None) =
     Content (replicate 4301 (CHR ''7'')) \<and>
   map_of (execute limits_env 0 RESEARCH (JStr ''dig'') None None) ''success'' = Some (JBool False) \<and>
   map_of (execute limits_env 0 RESEARCH (JStr ''dig'') None None) ''raw_response'' = None \<and>
   map_of (execute limits_env 0 RESEARCH (JStr ''dig'') None None) ''error'' \<noteq> None \<and>
   llm limits_env 1 (mk_request RESEARCH (JStr ''dig'') None None) = NoContent \<and>
   map_of (execute limits_env 1 RESEARCH (JStr ''dig'') None None) ''success'' = Some (JBool False) \<and>
   map_of (execute limits_env 1 RESEARCH (JStr ''dig'') None None) ''raw_response'' = None \<and>
   llm limits_env 2 (mk_request RESEARCH (JStr ''dig'') None None) = Content ''null'' \<and>
   json_loads limits_env ''null'' = Parsed JNull \<and>
   map_of (execute limits_env 2 RESEARCH (JStr ''dig'') None None) ''success'' = Some (JBool True) \<and>
   map_of (execute limits_env 2 RESEARCH (JStr ''dig'') None None) ''parsed'' = Some JNull"
  by code_simp

subsection \<open>Step positions\<close>

lemma run_pending_ident:
  "map step_ident (steps (workflow (outcome_state
        (run_pending env [0..<length (steps (workflow s))] s)))) =
   map step_ident (steps (workflow s))"
proof -
  let ?P = "\<lambda>s'. map step_ident (steps (workflow s')) = map step_ident (steps (workflow s))"
  have "?P (outcome_state (run_pending env [0..<length (steps (workflow s))] s)) \<and>
        length (steps (workflow (outcome_state
          (run_pending env [0..<length (steps (workflow s))] s)))) = length (steps (workflow s))"
  proof (rule run_pending_inv [where P = ?P])
    show "\<And>s' i s''. ?P s' \<Longrightarrow> i < length (steps (workflow s')) \<Longrightarrow>
            status (steps (workflow s') ! i) = ''pending'' \<Longrightarrow>
            execute_step env i s' = Inr s'' \<Longrightarrow> ?P s''"
      by (simp add: execute_step_ident)
  qed simp_all
  then show ?thesis by simp
qed

lemma final_output_phase_steps:
  "(if \<exists>st \<in> set (steps (workflow s)). agent st = OUTPUT \<and> status st = ''completed''
    then steps (workflow (outcome_state (final_output_phase env s))) = steps (workflow s)
    else map step_ident (steps (workflow (outcome_state (final_output_phase env s)))) =
           map step_ident (steps (workflow s)) @
             [(int (length (steps (workflow s))) + 1, OUTPUT,
               JStr ''Create final response synthesizing all agent findings'')])"
proof (rule final_output_phase_cases [of env s])
  fix out
  assume "final_output_phase env s = Inr (s\<lparr>workflow := (workflow s)\<lparr>final_output := Some out\<rparr>\<rparr>)"
    and "\<exists>st \<in> set (steps (workflow s)). agent st = OUTPUT \<and> status st = ''completed''"
  then show ?thesis by simp
next
  fix s2 out
  let ?s1 = "s\<lparr>workflow := (workflow s)\<lparr>steps := steps (workflow s) @
              [forced_output_step (length (steps (workflow s)))]\<rparr>\<rparr>"
  assume ex: "execute_step env (length (steps (workflow s))) ?s1 = Inr s2"
    and fin: "final_output_phase env s = Inr (s2\<lparr>workflow := (workflow s2)\<lparr>final_output := Some out\<rparr>\<rparr>)"
    and none: "\<not> (\<exists>st \<in> set (steps (workflow s)). agent st = OUTPUT \<and> status st = ''completed'')"
  from execute_step_ident(1) [OF _ ex]
  have "map step_ident (steps (workflow s2)) = map step_ident (steps (workflow ?s1))" by simp
  with fin have eq: "map step_ident (steps (workflow (outcome_state (final_output_phase env s)))) =
           map step_ident (steps (workflow s)) @
             [(int (length (steps (workflow s))) + 1, OUTPUT,
               JStr ''Create final response synthesizing all agent findings'')]"
    by (simp add: forced_output_step_def new_step_def step_ident_def)
  show ?thesis unfolding if_not_P [OF none] by (rule eq)
qed

text \<open>
  Claim C6, as amended. Within one call of \<open>run_workflow\<close>, from the list that planning
  assigns: in the state the run ends in, whether it returns or raises after planning, the
  positions (\<open>step_id\<close>) are \<open>1, 2, 3, ...\<close> in list order, so they increase strictly and no
  position occurs twice, and the planned steps are still the first steps of the list, with
  their position, agent and instruction. The step loop changes no position, agent or
  instruction. In a revision round the steps that \<open>_add_revision_steps\<close> returns are numbered
  from the length of the list plus one and are put at the end of the list, where they remain
  until the loop ends. The loop only appends. The final phase leaves the list as it is when
  an output step has completed; otherwise it appends one step, the forced output step, with
  the next position. (When planning raises, the list is the one the workflow had.)
\<close>

theorem step_positions_append_only:
  "(case planning_phase env s of
     Inl es \<Rightarrow> steps (workflow (outcome_state (run_workflow env s))) = steps (workflow s)
   | Inr (planned, s1) \<Rightarrow>
       (let final = steps (workflow (outcome_state (run_workflow env s)))
        in map step_id final = map (\<lambda>i. 1 + int i) [0..<length final] \<and>
           sorted_wrt (<) (map step_id final) \<and> distinct (map step_id final) \<and>
           prefix (map step_ident planned) (map step_ident final))) \<and>
   map step_ident (steps (workflow (outcome_state
       (run_pending env [0..<length (steps (workflow s0))] s0)))) =
     map step_ident (steps (workflow s0)) \<and>
   (iteration_count (workflow s0) < max_iterations (workflow s0) \<and>
    run_pending env [0..<length (steps (workflow s0))] (next_iteration s0) = Inr s2 \<and>
    check_if_revision_needed (workflow s2) = Inr True \<and>
    notify env ''revision'' s2 = Inr s3 \<and>
    add_revision_steps env (workflow s3) = Inr new_steps \<longrightarrow>
      map step_id new_steps =
        map (\<lambda>i. int (length (steps (workflow s2))) + 1 + int i) [0..<length new_steps] \<and>
      steps (workflow (extend_steps new_steps s3)) = steps (workflow s2) @ new_steps \<and>
      run_loop env s0 = run_loop env (extend_steps new_steps s3) \<and>
      prefix (map step_ident (steps (workflow s2) @ new_steps))
        (map step_ident (steps (workflow (outcome_state (run_loop env s0)))))) \<and>
   prefix (map step_ident (steps (workflow s0)))
     (map step_ident (steps (workflow (outcome_state (run_loop env s0))))) \<and>
   (if \<exists>st \<in> set (steps (workflow s0)). agent st = OUTPUT \<and> status st = ''completed''
    then steps (workflow (outcome_state (final_output_phase env s0))) = steps (workflow s0)
    else map step_ident (steps (workflow (outcome_state (final_output_phase env s0)))) =
           map step_ident (steps (workflow s0)) @
             [(int (length (steps (workflow s0))) + 1, OUTPUT,
               JStr ''Create final response synthesizing all agent findings'')])"
    (is "?run \<and> ?pending \<and> ?round \<and> ?loop \<and> ?final")
proof -
  have p: ?pending by (rule run_pending_ident)
  have l: ?loop by (rule steps_kept_loop) simp
  have f: ?final by (rule final_output_phase_steps)
  have r: ?round
  proof (intro impI)
    assume a: "iteration_count (workflow s0) < max_iterations (workflow s0) \<and>
      run_pending env [0..<length (steps (workflow s0))] (next_iteration s0) = Inr s2 \<and>
      check_if_revision_needed (workflow s2) = Inr True \<and>
      notify env ''revision'' s2 = Inr s3 \<and>
      add_revision_steps env (workflow s3) = Inr new_steps"
    then have new: "add_revision_steps env (workflow s3) = Inr new_steps" by simp
    from a notify_Inr [of env "''revision''" s2 s3] obtain x where s3: "s3 = s2\<lparr>events := x\<rparr>"
      by blast
    from add_revision_steps_numbered(1) [OF new] s3
    have 1: "map step_id new_steps =
        map (\<lambda>i. int (length (steps (workflow s2))) + 1 + int i) [0..<length new_steps]"
      by (simp add: numbered_from_def)
    from s3 have 2: "steps (workflow (extend_steps new_steps s3)) = steps (workflow s2) @ new_steps"
      by (simp add: extend_steps_def)
    from a have 3: "run_loop env s0 = run_loop env (extend_steps new_steps s3)"
      by (simp add: run_loop.simps [of env s0])
    have "prefix (map step_ident (steps (workflow s2) @ new_steps))
        (map step_ident (steps (workflow (outcome_state (run_loop env (extend_steps new_steps s3))))))"
      by (rule steps_kept_loop) (simp add: 2)
    with 1 2 3 show "map step_id new_steps =
        map (\<lambda>i. int (length (steps (workflow s2))) + 1 + int i) [0..<length new_steps] \<and>
      steps (workflow (extend_steps new_steps s3)) = steps (workflow s2) @ new_steps \<and>
      run_loop env s0 = run_loop env (extend_steps new_steps s3) \<and>
      prefix (map step_ident (steps (workflow s2) @ new_steps))
        (map step_ident (steps (workflow (outcome_state (run_loop env s0)))))"
      by simp
  qed
  have ?run
  proof (cases "planning_phase env s")
    case (Inl es)
    obtain e s1 where es: "es = (e, s1)" by (cases es)
    from Inl es have "run_workflow env s = Inl (e, s1)"
      by (simp add: run_workflow_def)
    with planning_phase_Inl(1) [OF Inl [unfolded es]] Inl show ?thesis by simp
  next
    case (Inr ps)
    obtain planned s1 where ps: "ps = (planned, s1)" by (cases ps)
    note plan = Inr [unfolded ps]
    let ?s1 = "s1\<lparr>workflow := (workflow s1)\<lparr>steps := planned\<rparr>\<rparr>"
    from planning_phase_Inr(1) [OF plan] have init: "positions_kept planned ?s1"
      by (simp add: positions_kept_def)
    have "positions_kept planned (outcome_state (run_workflow env s))"
    proof (rule run_workflow_cases [of env s])
      fix e s1' assume "planning_phase env s = Inl (e, s1')"
      with plan show ?thesis by simp
    next
      fix planned' s1' e s2
      assume "planning_phase env s = Inr (planned', s1')"
        and l: "run_loop env (s1'\<lparr>workflow := (workflow s1')\<lparr>steps := planned'\<rparr>\<rparr>) = Inl (e, s2)"
        and r: "run_workflow env s = Inl (e, s2)"
      with plan have "planned' = planned" "s1' = s1" by simp_all
      with positions_kept_loop [OF init, of env] l r show ?thesis by simp
    next
      fix planned' s1' s3 s4 x
      assume "planning_phase env s = Inr (planned', s1')"
        and l: "run_loop env (s1'\<lparr>workflow := (workflow s1')\<lparr>steps := planned'\<rparr>\<rparr>) = Inr s3"
        and f: "final_output_phase env s3 = Inr s4"
        and r: "outcome_state (run_workflow env s) =
                  s4\<lparr>workflow := (workflow s4)\<lparr>state := COMPLETED\<rparr>, events := x\<rparr>"
      with plan have "planned' = planned" "s1' = s1" by simp_all
      with positions_kept_loop [OF init, of env] l have "positions_kept planned s3" by simp
      from positions_kept_final [OF this f] r show ?thesis by (simp add: positions_kept_def)
    qed
    then have n: "numbered_from 1 (steps (workflow (outcome_state (run_workflow env s))))"
      and p: "prefix (map step_ident planned)
                (map step_ident (steps (workflow (outcome_state (run_workflow env s)))))"
      by (simp_all add: positions_kept_def)
    from n numbered_from_sorted [OF n] p plan show ?thesis
      by (simp add: numbered_from_def Let_def)
  qed
  with p r l f show ?thesis by blast
qed

text \<open>
  A round of the default plan with a reviewer that asks for more work: the two steps that
  \<open>_add_revision_steps\<close> returns get the positions 6 and 7 and follow the five planned
  steps in the list the loop leaves. No output step of the list the plan starts with has
  completed, and the final phase appends the forced output step with position 6.
\<close>

theorem step_positions_append_only_witness:
  "iteration_count (workflow planned_run) < max_iterations (workflow planned_run) \<and>
   run_pending (demo_env perpetual_llm) [0..<length (steps (workflow planned_run))]
       (next_iteration planned_run) =
     Inr (outcome_state (run_pending (demo_env perpetual_llm) [0..<5] (next_iteration planned_run))) \<and>
   check_if_revision_needed (workflow (outcome_state
       (run_pending (demo_env perpetual_llm) [0..<5] (next_iteration planned_run)))) = Inr True \<and>
   notify (demo_env perpetual_llm) ''revision''
       (outcome_state (run_pending (demo_env perpetual_llm) [0..<5] (next_iteration planned_run))) =
     Inr (outcome_state (run_pending (demo_env perpetual_llm) [0..<5] (next_iteration planned_run))) \<and>
   add_revision_steps (demo_env perpetual_llm) (workflow (outcome_state
       (run_pending (demo_env perpetual_llm) [0..<5] (next_iteration planned_run)))) =
     Inr [new_step 6 RESEARCH (JStr ''dig''),
          new_step 7 REVIEW
            (JStr ''Review the additional findings and determine if analysis is complete'')] \<and>
   prefix
     (map step_ident (steps (workflow (outcome_state
         (run_pending (demo_env perpetual_llm) [0..<5] (next_iteration planned_run)))) @
        [new_step 6 RESEARCH (JStr ''dig''),
         new_step 7 REVIEW
           (JStr ''Review the additional findings and determine if analysis is complete'')]))
     (map step_ident (steps (workflow (outcome_state
         (run_loop (demo_env perpetual_llm) planned_run))))) \<and>
   map step_ident (steps (workflow (outcome_state
       (final_output_phase (demo_env perpetual_llm) planned_run)))) =
     map step_ident (steps (workflow planned_run)) @
       [(6, OUTPUT, JStr ''Create final response synthesizing all agent findings'')]"
proof -
  let ?E = "demo_env perpetual_llm"
  let ?s2 = "outcome_state (run_pending ?E [0..<5] (next_iteration planned_run))"
  let ?new = "[new_step 6 RESEARCH (JStr ''dig''),
          new_step 7 REVIEW
            (JStr ''Review the additional findings and determine if analysis is complete'')]"
  have h1: "iteration_count (workflow planned_run) < max_iterations (workflow planned_run)"
    by code_simp
  have h2: "run_pending ?E [0..<length (steps (workflow planned_run))] (next_iteration planned_run) =
      Inr ?s2"
    by code_simp
  have h3: "check_if_revision_needed (workflow ?s2) = Inr True"
    by code_simp
  have h4: "notify ?E ''revision'' ?s2 = Inr ?s2"
    by (simp add: notify_def demo_env_def)
  have h5: "add_revision_steps ?E (workflow ?s2) = Inr ?new"
    by code_simp
  have h6: "\<not> (\<exists>st \<in> set (steps (workflow planned_run)).
              agent st = OUTPUT \<and> status st = ''completed'')"
    by code_simp
  have h7: "int (length (steps (workflow planned_run))) + 1 = 6"
    by code_simp
  from step_positions_append_only
    [of ?E planned_run planned_run ?s2 ?s2 ?new] h1 h2 h3 h4 h5
  have "prefix (map step_ident (steps (workflow ?s2) @ ?new))
     (map step_ident (steps (workflow (outcome_state (run_loop ?E planned_run)))))"
    by blast
  moreover from step_positions_append_only
    [of ?E planned_run planned_run ?s2 ?s2 ?new] h6 h7
  have "map step_ident (steps (workflow (outcome_state (final_output_phase ?E planned_run)))) =
     map step_ident (steps (workflow planned_run)) @
       [(6, OUTPUT, JStr ''Create final response synthesizing all agent findings'')]"
    by simp
  ultimately show ?thesis using h1 h2 h3 h4 h5 by blast
qed

text \<open>
  Claim C6 as stated fails across calls: planning assigns a new list whatever the workflow
  holds. A first call leaves five steps; a second call on the same workflow leaves three:
  the steps at positions 4 and 5 are gone, the two planned steps are back to pending, and
  position 3, which was that of a research step, is that of the forced output step.
\<close>

theorem second_run_replaces_steps:
  "case run_workflow (demo_env unknown_agent_llm) (fresh_run 1) of
     Inr s1 \<Rightarrow>
       (case run_workflow (demo_env unknown_agent_llm) s1 of
          Inr s2 \<Rightarrow>
            map step_ident (steps (workflow s1)) =
              [(1, RESEARCH, JStr ''audit''), (2, REVIEW, JStr ''check''),
               (3, RESEARCH, JStr ''dig''),
               (4, REVIEW,
                JStr ''Review the additional findings and determine if analysis is complete''),
               (5, OUTPUT, JStr ''Create final response synthesizing all agent findings'')] \<and>
            map status (steps (workflow s1)) =
              [''completed'', ''completed'', ''pending'', ''pending'', ''completed''] \<and>
            map step_ident (steps (workflow s2)) =
              [(1, RESEARCH, JStr ''audit''), (2, REVIEW, JStr ''check''),
               (3, OUTPUT, JStr ''Create final response synthesizing all agent findings'')] \<and>
            map status (steps (workflow s2)) = [''pending'', ''pending'', ''completed''] \<and>
            \<not> prefix (map step_ident (steps (workflow s1))) (map step_ident (steps (workflow s2)))
        | Inl es \<Rightarrow> False)
   | Inl es \<Rightarrow> False"
  by code_simp

subsection \<open>The iteration counter\<close>

text \<open>
  Claim C3, as amended. \<open>run_workflow\<close> is a total function: the loop is defined by
  well-founded recursion on \<open>max_iterations - iteration_count\<close>, so every run ends, by
  returning or by raising (each call of the generation service and of the progress
  callback is taken to end, as the environment gives it an outcome). In the state it ends
  in, the values assigned to
  \<open>iteration_count\<close> during the run are the successors of the initial value, one per
  iteration, and none of them exceeds \<open>max_iterations\<close>, which the run does not change;
  the counter ends at most at the larger of its initial value and the cap, so it never
  exceeds the cap when it did not on entry. A loop entered at or beyond the cap returns at
  once, and whenever the loop returns the run ends with state \<open>COMPLETED\<close>: it returns,
  unless a progress callback raises when it is told of the completion.
\<close>

theorem iteration_count_bounded:
  "(\<exists>n. count_log (outcome_state (run_workflow env s)) =
          count_log s @ map (\<lambda>i. iteration_count (workflow s) + 1 + int i) [0..<n] \<and>
        iteration_count (workflow (outcome_state (run_workflow env s))) =
          iteration_count (workflow s) + int n) \<and>
   (\<forall>c \<in> set (drop (length (count_log s)) (count_log (outcome_state (run_workflow env s)))).
      c \<le> max_iterations (workflow s)) \<and>
   iteration_count (workflow (outcome_state (run_workflow env s)))
     \<le> max (iteration_count (workflow s)) (max_iterations (workflow s)) \<and>
   max_iterations (workflow (outcome_state (run_workflow env s))) = max_iterations (workflow s) \<and>
   (iteration_count (workflow s) \<le> max_iterations (workflow s) \<longrightarrow>
      iteration_count (workflow (outcome_state (run_workflow env s)))
        \<le> max_iterations (workflow (outcome_state (run_workflow env s)))) \<and>
   (\<not> iteration_count (workflow s0) < max_iterations (workflow s0) \<longrightarrow> run_loop env s0 = Inr s0) \<and>
   (planning_phase env s = Inr (planned, s1) \<and>
    run_loop env (s1\<lparr>workflow := (workflow s1)\<lparr>steps := planned\<rparr>\<rparr>) = Inr s3 \<longrightarrow>
      state (workflow (outcome_state (run_workflow env s))) = COMPLETED \<and>
      (stream_callback env = None \<longrightarrow>
         (\<exists>s4. run_workflow env s = Inr s4 \<and> state (workflow s4) = COMPLETED)))"
proof -
  let ?s' = "outcome_state (run_workflow env s)"
  from count_inv_run [of s env] obtain n where
    n: "max_iterations (workflow ?s') = max_iterations (workflow s)"
       "count_log ?s' = count_log s @ map (\<lambda>i. iteration_count (workflow s) + 1 + int i) [0..<n]"
       "iteration_count (workflow ?s') = iteration_count (workflow s) + int n"
       "0 < n \<longrightarrow> iteration_count (workflow s) + int n \<le> max_iterations (workflow s)"
    by (auto simp: count_inv_def)
  have a: "\<exists>n. count_log ?s' =
          count_log s @ map (\<lambda>i. iteration_count (workflow s) + 1 + int i) [0..<n] \<and>
        iteration_count (workflow ?s') = iteration_count (workflow s) + int n"
    using n(2,3) by blast
  have b: "\<forall>c \<in> set (drop (length (count_log s)) (count_log ?s')). c \<le> max_iterations (workflow s)"
    using n(2,4) by auto
  have c: "iteration_count (workflow ?s') \<le> max (iteration_count (workflow s)) (max_iterations (workflow s))"
    using n(3,4) by (cases n) auto
  have d: "iteration_count (workflow s) \<le> max_iterations (workflow s) \<longrightarrow>
      iteration_count (workflow ?s') \<le> max_iterations (workflow ?s')"
    using c n(1) by auto
  have e: "\<not> iteration_count (workflow s0) < max_iterations (workflow s0) \<longrightarrow> run_loop env s0 = Inr s0"
    by (simp add: run_loop.simps [of env s0])
  have f: "planning_phase env s = Inr (planned, s1) \<and>
    run_loop env (s1\<lparr>workflow := (workflow s1)\<lparr>steps := planned\<rparr>\<rparr>) = Inr s3 \<longrightarrow>
      state (workflow (outcome_state (run_workflow env s))) = COMPLETED \<and>
      (stream_callback env = None \<longrightarrow>
         (\<exists>s4. run_workflow env s = Inr s4 \<and> state (workflow s4) = COMPLETED))"
    by (rule run_workflow_cases [of env s]) auto
  from a b c n(1) d e f show ?thesis by blast
qed

text \<open>
  A reviewer that asks for more work on every round, with the cap at 2: the run ends
  completed with the counter at the cap.
\<close>

theorem iteration_count_bounded_witness:
  "iteration_count (workflow (fresh_run 2)) \<le> max_iterations (workflow (fresh_run 2)) \<and>
   (case run_workflow (demo_env perpetual_llm) (fresh_run 2) of
      Inr s \<Rightarrow> count_log s = [1, 2] \<and> iteration_count (workflow s) = 2 \<and>
               max_iterations (workflow s) = 2 \<and> state (workflow s) = COMPLETED
    | Inl es \<Rightarrow> False) \<and>
   iteration_count (workflow (outcome_state (run_workflow (demo_env perpetual_llm) (fresh_run 2))))
     \<le> max_iterations (workflow (outcome_state (run_workflow (demo_env perpetual_llm) (fresh_run 2))))"
proof -
  have h: "iteration_count (workflow (fresh_run 2)) \<le> max_iterations (workflow (fresh_run 2))"
    by (simp add: fresh_run_def create_workflow_def)
  have r: "case run_workflow (demo_env perpetual_llm) (fresh_run 2) of
      Inr s \<Rightarrow> count_log s = [1, 2] \<and> iteration_count (workflow s) = 2 \<and>
               max_iterations (workflow s) = 2 \<and> state (workflow s) = COMPLETED
    | Inl es \<Rightarrow> False"
    by code_simp
  from iteration_count_bounded [of "demo_env perpetual_llm" "fresh_run 2"] h r
  show ?thesis by blast
qed

text \<open>
  Claim C3 as stated fails for a workflow whose cap is below its counter on entry, as the
  API route makes it from a request with \<open>max_iterations = -1\<close>: the counter (0) exceeds
  the cap throughout the run.
\<close>

theorem negative_cap_exceeded:
  "case run_workflow (demo_env quiet_llm) (fresh_run (- 1)) of
     Inr s \<Rightarrow> max_iterations (workflow s) < iteration_count (workflow s) \<and>
              state (workflow s) = COMPLETED
   | Inl es \<Rightarrow> False"
  by code_simp

subsection \<open>Planning\<close>

text \<open>
  Claim C1. Planning is claimed never to leave a workflow without steps: a plan that
  yields no steps should give the default sequence. When the planner's reply parses to a
  non-empty object whose \<open>workflow_steps\<close> list is empty, \<open>_plan_workflow\<close> returns the
  empty list.
\<close>

theorem empty_plan_leaves_no_steps:
  "case plan_workflow (demo_env empty_plan_llm) (fresh_run 5) of
     Inr (planned, s1) \<Rightarrow> planned = []
   | Inl es \<Rightarrow> False"
  by code_simp

subsection \<open>Revision\<close>

text \<open>
  Claim C2. The verdict of \<open>_check_if_revision_needed\<close> is claimed to be that of the most
  recent completed reviewer step. In the run below the first reviewer (position 4) asks for
  more work and the second (position 7, the last completed one) reports that the analysis is
  ready: the verdict is still that a revision is needed.
\<close>

theorem first_review_governs:
  "case run_workflow (demo_env second_review_llm) (fresh_run 2) of
     Inr s \<Rightarrow>
       map agent (steps (workflow s)) =
         [TRIAGE, RESEARCH, COMPLIANCE, REVIEW, OUTPUT, RESEARCH, REVIEW, RESEARCH, REVIEW] \<and>
       map status (steps (workflow s)) =
         [''completed'', ''completed'', ''completed'', ''completed'', ''completed'',
          ''completed'', ''completed'', ''pending'', ''pending''] \<and>
       map_of (output_data (steps (workflow s) ! 3)) ''parsed'' =
         Some (JObj [(''ready_for_output'', JBool False),
                     (''additional_work_needed'',
                      JArr [JObj [(''agent'', JStr ''research''), (''task'', JStr ''dig'')]])]) \<and>
       map_of (output_data (steps (workflow s) ! 6)) ''parsed'' =
         Some (JObj [(''ready_for_output'', JBool True), (''additional_work_needed'', JArr [])]) \<and>
       check_if_revision_needed (workflow s) = Inr True
   | Inl es \<Rightarrow> False"
  by code_simp

subsection \<open>The end of a run\<close>

text \<open>
  Claim C10. Every run is claimed to end with state \<open>COMPLETED\<close> and a final output. When
  the planner's reply is the JSON array \<open>[1]\<close>, \<open>plan.get\<close> raises \<open>AttributeError\<close>, which
  leaves \<open>run_workflow\<close>: the workflow stays in state \<open>IN_PROGRESS\<close> without final output.
\<close>

theorem list_plan_aborts_run:
  "case run_workflow (demo_env list_plan_llm) (fresh_run 5) of
     Inl (e, s) \<Rightarrow> e = AttributeError \<and> state (workflow s) = IN_PROGRESS \<and>
                   final_output (workflow s) = None
   | Inr s \<Rightarrow> False"
  by code_simp

text \<open>
  A reply of unexpected shape can end a run in a second place when the caller passes a
  progress callback, as \<open>/workflow/stream\<close> and \<open>runner.py\<close> do. The planner gives a step the
  instruction \<open>5\<close>: the message for the callback slices the instruction, \<open>TypeError\<close> leaves
  \<open>run_workflow\<close> before the step is executed, and the workflow stays in state
  \<open>IN_PROGRESS\<close>. Without a callback the same run completes.
\<close>

lemma numeric_instruction_aborts_watched_run:
  "(case run_workflow (watched_env numeric_plan_llm) (fresh_run 5) of
      Inl (e, s) \<Rightarrow> e = TypeError \<and> state (workflow s) = IN_PROGRESS \<and>
                    final_output (workflow s) = None \<and> events s = [''planning''] \<and>
                    map status (steps (workflow s)) = [''pending''] \<and>
                    map instruction (steps (workflow s)) = [JInt 5] \<and> length (calls s) = 1
    | Inr s \<Rightarrow> False) \<and>
   (case run_workflow (demo_env numeric_plan_llm) (fresh_run 5) of
      Inr s \<Rightarrow> state (workflow s) = COMPLETED \<and>
               map status (steps (workflow s)) = [''completed'', ''completed'']
    | Inl es \<Rightarrow> False)"
  by code_simp

subsection \<open>Unknown agent names\<close>



subsection \<open>The context of a step\<close>

text \<open>
  Claim C5, as amended. For the step at index \<open>i\<close>, of position \<open>N\<close>, \<open>_execute_step\<close> sends
  one request, whose context holds the user request and, under the key of each agent role,
  the output of the last step in list order that has position below \<open>N\<close>, has output and has
  that role; it has no other key. So it holds nothing of a step at position \<open>N\<close> or beyond
  and nothing of a step without output, and of several earlier steps with the same role only
  the last one's output. Having output and being completed are the same in every state of a
  run: executing a pending step keeps them so (a failed step gets no output), and they agree
  in the state a run ends in after planning.
\<close>

theorem step_context_contents:
  assumes "i < length (steps (workflow s))"
  shows "(\<exists>s' context.
            execute_step env i s = Inr s' \<and>
            calls s' = calls s @ [step_request s i] \<and>
            req_agent (step_request s i) = agent (steps (workflow s) ! i) \<and>
            req_instruction (step_request s i) = instruction (steps (workflow s) ! i) \<and>
            req_context (step_request s i) = Some context \<and>
            map_of context ''user_request'' = Some (JStr (user_request (workflow s))) \<and>
            (\<forall>role. map_of context (role_value role) =
               (case filter (\<lambda>p. step_id p < step_id (steps (workflow s) ! i) \<and>
                                 output_data p \<noteq> [] \<and> agent p = role) (steps (workflow s)) of
                  [] \<Rightarrow> None
                | ps \<Rightarrow> Some (JObj (output_data (last ps))))) \<and>
            (\<forall>key. key \<noteq> ''user_request'' \<and> (\<forall>role. key \<noteq> role_value role) \<longrightarrow>
               map_of context key = None)) \<and>
         (outputs_agree s \<and> status (steps (workflow s) ! i) = ''pending'' \<longrightarrow>
            outputs_agree (outcome_state (execute_step env i s))) \<and>
         (case planning_phase env s0 of
            Inr planned \<Rightarrow> outputs_agree (outcome_state (run_workflow env s0))
          | Inl es \<Rightarrow> True)"
proof (intro conjI)
  let ?ctx = "gather_context (workflow s) (steps (workflow s) ! i)"
  have 1: "execute_step env i s = Inr (outcome_state (execute_step env i s))"
    using assms by (simp add: execute_step_Inr)
  have 2: "calls (outcome_state (execute_step env i s)) = calls s @ [step_request s i]"
    using assms by (simp add: execute_step_Inr)
  have 3: "req_agent (step_request s i) = agent (steps (workflow s) ! i)"
    "req_instruction (step_request s i) = instruction (steps (workflow s) ! i)"
    "req_context (step_request s i) = Some ?ctx"
    by (simp_all add: step_request_def Let_def mk_request_def)
  have 4: "map_of ?ctx ''user_request'' = Some (JStr (user_request (workflow s)))"
    by (simp add: gather_context_lookup)
  have 5: "\<forall>role. map_of ?ctx (role_value role) =
               (case filter (\<lambda>p. step_id p < step_id (steps (workflow s) ! i) \<and>
                                 output_data p \<noteq> [] \<and> agent p = role) (steps (workflow s)) of
                  [] \<Rightarrow> None
                | ps \<Rightarrow> Some (JObj (output_data (last ps))))"
    by (simp add: gather_context_lookup role_value_not_request role_value_inj)
  have 6: "\<forall>key. key \<noteq> ''user_request'' \<and> (\<forall>role. key \<noteq> role_value role) \<longrightarrow>
               map_of ?ctx key = None"
    by (simp add: gather_context_other_keys)
  from 1 2 3 4 5 6
  show "\<exists>s' context.
            execute_step env i s = Inr s' \<and>
            calls s' = calls s @ [step_request s i] \<and>
            req_agent (step_request s i) = agent (steps (workflow s) ! i) \<and>
            req_instruction (step_request s i) = instruction (steps (workflow s) ! i) \<and>
            req_context (step_request s i) = Some context \<and>
            map_of context ''user_request'' = Some (JStr (user_request (workflow s))) \<and>
            (\<forall>role. map_of context (role_value role) =
               (case filter (\<lambda>p. step_id p < step_id (steps (workflow s) ! i) \<and>
                                 output_data p \<noteq> [] \<and> agent p = role) (steps (workflow s)) of
                  [] \<Rightarrow> None
                | ps \<Rightarrow> Some (JObj (output_data (last ps))))) \<and>
            (\<forall>key. key \<noteq> ''user_request'' \<and> (\<forall>role. key \<noteq> role_value role) \<longrightarrow>
               map_of context key = None)"
    by blast
  show "outputs_agree s \<and> status (steps (workflow s) ! i) = ''pending'' \<longrightarrow>
            outputs_agree (outcome_state (execute_step env i s))"
    using outputs_agree_step [OF _ assms _ 1] by blast
  show "case planning_phase env s0 of
            Inr planned \<Rightarrow> outputs_agree (outcome_state (run_workflow env s0))
          | Inl es \<Rightarrow> True"
    by (auto split: sum.split intro: outputs_agree_run)
qed

text \<open>
  After the triage step of the default plan has run, the research step is sent the triage
  output and the user request.
\<close>

theorem step_context_contents_witness:
  "1 < length (steps (workflow (outcome_state (execute_step (demo_env quiet_llm) 0 planned_run)))) \<and>
   req_context (step_request (outcome_state (execute_step (demo_env quiet_llm) 0 planned_run)) 1) =
     Some [(''triage'', JObj [(''agent'', JStr ''triage''), (''raw_response'', JStr ''Some findings.''),
                             (''parsed'', JNull), (''success'', JBool True)]),
           (''user_request'', JStr ''Assess the outage'')] \<and>
   (\<exists>s' context.
      execute_step (demo_env quiet_llm) 1
        (outcome_state (execute_step (demo_env quiet_llm) 0 planned_run)) = Inr s' \<and>
      calls s' = calls (outcome_state (execute_step (demo_env quiet_llm) 0 planned_run)) @
        [step_request (outcome_state (execute_step (demo_env quiet_llm) 0 planned_run)) 1] \<and>
      req_context (step_request (outcome_state (execute_step (demo_env quiet_llm) 0 planned_run)) 1) =
        Some context \<and>
      map_of context ''user_request'' =
        Some (JStr (user_request
          (workflow (outcome_state (execute_step (demo_env quiet_llm) 0 planned_run))))))"
proof -
  have h: "1 < length (steps (workflow (outcome_state (execute_step (demo_env quiet_llm) 0 planned_run))))"
    by code_simp
  have c: "req_context (step_request (outcome_state (execute_step (demo_env quiet_llm) 0 planned_run)) 1) =
     Some [(''triage'', JObj [(''agent'', JStr ''triage''), (''raw_response'', JStr ''Some findings.''),
                             (''parsed'', JNull), (''success'', JBool True)]),
           (''user_request'', JStr ''Assess the outage'')]"
    by code_simp
  from step_context_contents [OF h, of "demo_env quiet_llm"] h c show ?thesis by blast
qed

text \<open>
  Claim C5 as stated fails when two completed earlier steps have the same role. In the run
  below, the second reviewer (position 7) is executed after the research steps at positions
  2 and 6 have completed with different outputs: the context it is sent has the output of
  step 6 under \<open>research\<close> and the output of step 2 under no key.
\<close>

theorem repeated_role_overwrites:
  "case run_workflow (demo_env second_review_llm) (fresh_run 2) of
     Inr s \<Rightarrow>
       (case req_context (calls s ! 7) of
          Some context \<Rightarrow>
            req_agent (calls s ! 7) = agent (steps (workflow s) ! 6) \<and>
            req_instruction (calls s ! 7) = instruction (steps (workflow s) ! 6) \<and>
            step_id (steps (workflow s) ! 6) = 7 \<and>
            step_id (steps (workflow s) ! 1) = 2 \<and>
            status (steps (workflow s) ! 1) = ''completed'' \<and>
            output_data (steps (workflow s) ! 1) \<noteq> [] \<and>
            JObj (output_data (steps (workflow s) ! 1)) \<notin> snd ` set context
        | None \<Rightarrow> False)
   | Inl es \<Rightarrow> False"
  by code_simp

subsection \<open>Steps are executed once\<close>

text \<open>
  Claim C4, as amended. The step loop executes pending steps only: wherever it ends, it
  has left every step that was not pending as it was; when it returns, no step is pending
  and running it again right after changes nothing, as does running it on a list without
  pending steps. It returns whenever the caller passes no progress callback (with one, the
  callback or the message built for it may raise). Over a whole run, counted from the log
  the run found, the log has exactly one entry for each step that is no longer pending where
  the run ends, so no step is executed twice, within an iteration or across iterations.
  \<open>run_workflow\<close> itself plans on every call: a call that returns has always appended at
  least one entry.
\<close>

theorem completed_steps_not_rerun:
  "(\<forall>j<length (steps (workflow s)).
      status (steps (workflow s) ! j) \<noteq> ''pending'' \<longrightarrow>
      steps (workflow (outcome_state (run_pending env [0..<length (steps (workflow s))] s))) ! j =
        steps (workflow s) ! j) \<and>
   (\<forall>s'. run_pending env [0..<length (steps (workflow s))] s = Inr s' \<longrightarrow>
      (\<forall>st \<in> set (steps (workflow s')). status st \<noteq> ''pending'') \<and>
      run_pending env [0..<length (steps (workflow s'))] s' = Inr s') \<and>
   (stream_callback env = None \<longrightarrow>
      (\<exists>s'. run_pending env [0..<length (steps (workflow s))] s = Inr s' \<and>
         (\<forall>j<length (steps (workflow s)).
            status (steps (workflow s) ! j) \<noteq> ''pending'' \<longrightarrow>
            steps (workflow s') ! j = steps (workflow s) ! j) \<and>
         (\<forall>st \<in> set (steps (workflow s')). status st \<noteq> ''pending'') \<and>
         run_pending env [0..<length (steps (workflow s'))] s' = Inr s')) \<and>
   ((\<forall>st \<in> set (steps (workflow s)). status st \<noteq> ''pending'') \<longrightarrow>
      run_pending env [0..<length (steps (workflow s))] s = Inr s) \<and>
   (case planning_phase env s0 of
      Inl es \<Rightarrow> True
    | Inr planned \<Rightarrow>
        mset (map (\<lambda>entry. map_of entry ''step_id'')
               (drop (length (conversation_history (workflow s0)))
                  (conversation_history (workflow (outcome_state (run_workflow env s0)))))) =
        mset (map (\<lambda>st. Some (JInt (step_id st)))
               (filter (\<lambda>st. status st \<noteq> ''pending'')
                  (steps (workflow (outcome_state (run_workflow env s0)))))) \<and>
        distinct (map (\<lambda>entry. map_of entry ''step_id'')
               (drop (length (conversation_history (workflow s0)))
                  (conversation_history (workflow (outcome_state (run_workflow env s0))))))) \<and>
   (case run_workflow env s0 of
      Inr s' \<Rightarrow> length (conversation_history (workflow s0))
                  < length (conversation_history (workflow s'))
    | Inl es \<Rightarrow> True)"
    (is "?untouched \<and> ?returned \<and> ?plain \<and> ?idle \<and> ?log \<and> ?grows")
proof -
  let ?r = "run_pending env [0..<length (steps (workflow s))] s"
  have b: "\<forall>i \<in> set [0..<length (steps (workflow s))]. i < length (steps (workflow s))" by simp
  from run_pending_untouched [OF b, of env]
  have len: "length (steps (workflow (outcome_state ?r))) = length (steps (workflow s))"
    and u: ?untouched by simp_all
  have ret: "(\<forall>st \<in> set (steps (workflow s')). status st \<noteq> ''pending'') \<and>
      run_pending env [0..<length (steps (workflow s'))] s' = Inr s'" if r: "?r = Inr s'" for s'
  proof -
    from len r have l: "length (steps (workflow s')) = length (steps (workflow s))" by simp
    from run_pending_none_left [OF r b] l
    have np: "\<forall>st \<in> set (steps (workflow s')). status st \<noteq> ''pending''"
      by (auto simp: in_set_conv_nth)
    then have "run_pending env [0..<length (steps (workflow s'))] s' = Inr s'"
      by (intro run_pending_nothing_pending) simp
    with np show ?thesis by simp
  qed
  then have r: ?returned by blast
  have p: ?plain
  proof
    assume "stream_callback env = None"
    from run_pending_no_callback [OF this b] obtain s' where s': "?r = Inr s'" by blast
    with u ret [OF s'] show "\<exists>s'. ?r = Inr s' \<and>
         (\<forall>j<length (steps (workflow s)).
            status (steps (workflow s) ! j) \<noteq> ''pending'' \<longrightarrow>
            steps (workflow s') ! j = steps (workflow s) ! j) \<and>
         (\<forall>st \<in> set (steps (workflow s')). status st \<noteq> ''pending'') \<and>
         run_pending env [0..<length (steps (workflow s'))] s' = Inr s'"
      by simp
  qed
  have i: ?idle
    by (auto intro: run_pending_nothing_pending)
  let ?s' = "outcome_state (run_workflow env s0)"
  let ?new = "drop (length (conversation_history (workflow s0))) (conversation_history (workflow ?s'))"
  let ?done = "filter (\<lambda>st. status st \<noteq> ''pending'') (steps (workflow ?s'))"
  have l: ?log
  proof (cases "planning_phase env s0")
    case (Inl es)
    then show ?thesis by simp
  next
    case (Inr ps)
    obtain planned s1 where ps: "ps = (planned, s1)" by (cases ps)
    note plan = Inr [unfolded ps]
    from logged_once_run [OF plan]
    have eq: "mset (map (\<lambda>entry. map_of entry ''step_id'') ?new) =
              mset (map (\<lambda>st. Some (JInt (step_id st))) ?done)"
      by (simp add: logged_once_def)
    from numbered_from_sorted(2) [OF numbered_run [OF plan]]
    have "distinct (map step_id ?done)" by (rule distinct_map_filter)
    then have "distinct (map (\<lambda>st. Some (JInt (step_id st))) ?done)"
      by (simp add: distinct_map inj_on_def)
    with eq have "distinct (map (\<lambda>entry. map_of entry ''step_id'') ?new)"
      by (metis mset_eq_imp_distinct_iff)
    with eq Inr show ?thesis by simp
  qed
  have g: ?grows
  proof (cases "run_workflow env s0")
    case (Inl es)
    then show ?thesis by simp
  next
    case (Inr s')
    then obtain planned s1 where
      plan: "planning_phase env s0 = Inr (planned, s1)"
      by (rule_tac run_workflow_cases [of env s0]) auto
    from logged_once_run [OF plan] Inr
    have le: "length (conversation_history (workflow s0)) \<le> length (conversation_history (workflow s'))"
      and eq: "mset (map (\<lambda>entry. map_of entry ''step_id'')
             (drop (length (conversation_history (workflow s0))) (conversation_history (workflow s')))) =
           mset (map (\<lambda>st. Some (JInt (step_id st)))
             (filter (\<lambda>st. status st \<noteq> ''pending'') (steps (workflow s'))))"
      by (simp_all add: logged_once_def)
    from run_returns_executed [OF Inr]
    have "filter (\<lambda>st. status st \<noteq> ''pending'') (steps (workflow s')) \<noteq> []"
      by (auto simp: filter_empty_conv)
    with eq have "drop (length (conversation_history (workflow s0))) (conversation_history (workflow s')) \<noteq> []"
      by auto
    with Inr show ?thesis by simp
  qed
  from u r p i l g show ?thesis by blast
qed

text \<open>
  The step loop on the default plan, without a callback: five steps are executed, and a
  second pass sends no request and logs nothing.
\<close>

theorem completed_steps_not_rerun_witness:
  "stream_callback (demo_env quiet_llm) = None \<and>
   (\<exists>s'. run_pending (demo_env quiet_llm) [0..<length (steps (workflow planned_run))] planned_run = Inr s' \<and>
         (\<forall>st \<in> set (steps (workflow s')). status st \<noteq> ''pending'') \<and>
         run_pending (demo_env quiet_llm) [0..<length (steps (workflow s'))] s' = Inr s') \<and>
   (case run_pending (demo_env quiet_llm) [0..<5] planned_run of
      Inr s' \<Rightarrow> map status (steps (workflow s')) =
                  [''completed'', ''completed'', ''completed'', ''completed'', ''completed''] \<and>
                length (conversation_history (workflow s')) = 5 \<and> length (calls s') = 5 \<and>
                (case run_pending (demo_env quiet_llm) [0..<5] s' of
                   Inr s'' \<Rightarrow> length (conversation_history (workflow s'')) = 5 \<and>
                              length (calls s'') = 5
                 | Inl es \<Rightarrow> False)
    | Inl es \<Rightarrow> False)"
proof -
  have c: "stream_callback (demo_env quiet_llm) = None"
    by (simp add: demo_env_def)
  have e: "case run_pending (demo_env quiet_llm) [0..<5] planned_run of
      Inr s' \<Rightarrow> map status (steps (workflow s')) =
                  [''completed'', ''completed'', ''completed'', ''completed'', ''completed''] \<and>
                length (conversation_history (workflow s')) = 5 \<and> length (calls s') = 5 \<and>
                (case run_pending (demo_env quiet_llm) [0..<5] s' of
                   Inr s'' \<Rightarrow> length (conversation_history (workflow s'')) = 5 \<and>
                              length (calls s'') = 5
                 | Inl es \<Rightarrow> False)
    | Inl es \<Rightarrow> False"
    by code_simp
  from completed_steps_not_rerun [of planned_run "demo_env quiet_llm"] c e
  show ?thesis by blast
qed

text \<open>
  Claim C4 as stated fails for a second call of \<open>run_workflow\<close> on a completed workflow:
  the steps are planned again and executed, and the log grows from 5 to 10 entries.
\<close>

theorem second_run_appends:
  "case run_workflow (demo_env quiet_llm) (fresh_run 5) of
     Inr s1 \<Rightarrow>
       (case run_workflow (demo_env quiet_llm) s1 of
          Inr s2 \<Rightarrow> state (workflow s1) = COMPLETED \<and>
                    length (conversation_history (workflow s1)) = 5 \<and>
                    length (conversation_history (workflow s2)) = 10 \<and>
                    length (calls s1) = 6 \<and> length (calls s2) = 12
        | Inl es \<Rightarrow> False)
   | Inl es \<Rightarrow> False"
  by code_simp

subsection \<open>Backend failures\<close>

text \<open>
  When the generation service raises during the execution of a step, \<open>_execute_step\<close>
  returns normally: the step gets status \<open>failed\<close> and the error, nothing else of the step
  list changes, and a log entry with the failed result is appended.
\<close>

lemma backend_raise_recorded:
  assumes "i < length (steps (workflow s))"
    and "llm env (length (calls s)) (step_request s i) = Raises e"
  shows "\<exists>s'. execute_step env i s = Inr s' \<and>
         steps (workflow s') = (steps (workflow s))
           [i := (steps (workflow s) ! i)\<lparr>status := ''failed'', error := Some (JStr e)\<rparr>] \<and>
         conversation_history (workflow s') = conversation_history (workflow s) @
           [[(''step_id'', JInt (step_id (steps (workflow s) ! i))),
             (''agent'', JStr (role_value (agent (steps (workflow s) ! i)))),
             (''instruction'', instruction (steps (workflow s) ! i)),
             (''result'', JObj [(''agent'', JStr (role_value (agent (steps (workflow s) ! i)))),
                               (''error'', JStr e), (''success'', JBool False)])]] \<and>
         state (workflow s') = state (workflow s)"
proof -
  from assms(2) have "step_result env s i =
           [(''agent'', JStr (role_value (agent (steps (workflow s) ! i)))), (''error'', JStr e),
            (''success'', JBool False)]"
    by (simp add: step_result_def step_request_def Let_def execute_def)
  with assms(1) show ?thesis
    by (simp add: execute_step_Inr dict_get_def)
qed

text \<open>
  Claim C7. A backend failure during a step is claimed to leave the step failed and logged
  and the workflow running on to state \<open>COMPLETED\<close>. In the run below the call of the
  research step raises: the step is failed with its error, its log entry is appended and
  the steps after it are executed. Then the reviewer's reply, the JSON array \<open>[1]\<close>, makes
  \<open>_check_if_revision_needed\<close> raise \<open>AttributeError\<close>, which leaves \<open>run_workflow\<close>: the
  workflow, with its failed step, stays in state \<open>IN_PROGRESS\<close> without final output.
\<close>

theorem failed_step_then_abort:
  "case run_workflow (demo_env failing_review_llm) (fresh_run 5) of
     Inl (e, s) \<Rightarrow>
       e = AttributeError \<and> state (workflow s) = IN_PROGRESS \<and>
       final_output (workflow s) = None \<and>
       llm (demo_env failing_review_llm) 2 (calls s ! 2) = Raises ''quota exceeded'' \<and>
       map agent (steps (workflow s)) = [TRIAGE, RESEARCH, COMPLIANCE, REVIEW, OUTPUT] \<and>
       map status (steps (workflow s)) =
         [''completed'', ''failed'', ''completed'', ''completed'', ''completed''] \<and>
       map error (steps (workflow s)) = [None, Some (JStr ''quota exceeded''), None, None, None] \<and>
       length (conversation_history (workflow s)) = 5 \<and>
       map_of (conversation_history (workflow s) ! 1) ''result'' =
         Some (JObj [(''agent'', JStr ''research''), (''error'', JStr ''quota exceeded''),
                     (''success'', JBool False)]) \<and>
       map_of (output_data (steps (workflow s) ! 3)) ''parsed'' = Some (JArr [JInt 1]) \<and>
       steps_failed (get_workflow_summary (workflow s)) = 1 \<and>
       sum_state (get_workflow_summary (workflow s)) = ''in_progress''
   | Inr s \<Rightarrow> False"
  by code_simp

end
